theory Spec2Isabelle
  imports Main "HOL-Library.Char_ord" "HOL-Library.List_Lexorder" "HOL-Library.Sublist"
    "HOL-Library.Multiset"
begin

section \<open>withRetry (packages/utils/src/withRetry.ts)\<close>

text \<open>
  A property of an options object is missing, holds \<open>undefined\<close>/\<open>null\<close>, or holds a
  value. The spread \<open>{ ...DEFAULTS, ...opt }\<close> keeps the default only for a missing
  property; a property that is present and nullish overrides the default.
\<close>

datatype 'a field = Absent | Nullish | Given 'a

record RetryOption =
  maxRetry :: "int field"
  baseDelay :: "int field"
  timeout :: "int field"
  maxDelay :: "int field"

text \<open>A thrown value, as far as the retry loop reads it: its \<open>name\<close> and its \<open>code\<close>.\<close>

record thrown =
  ename :: "string option"
  ecode :: "string option"

datatype RetryAction = STOP | CONTINUE

text \<open>One invocation of the operation either resolves with a result or throws.\<close>

datatype 'a settled = Fulfilled 'a | Threw thrown

text \<open>The \<open>onError\<close> callback returns an action, returns nothing, or throws itself.\<close>

datatype cbResult = CbReturns "RetryAction option" | CbThrows thrown

text \<open>
  How \<open>withRetry\<close> settles: with the operation's result, by rethrowing a value as it is
  (an abort error, or what the callback threw), or with the new error
  \<open>Operation failed after n attempts\<close> whose cause is the last error.
\<close>

datatype 'a retryResult =
  Resolved 'a
| Rethrown thrown
| OperationFailed int "thrown option"

definition DEFAULT_maxRetry :: int where
  "DEFAULT_maxRetry = 3"

definition isAbortError :: "thrown \<Rightarrow> bool" where
  "isAbortError e = (ename e = Some ''AbortError'')"

text \<open>
  \<open>if (retryErrorCodes && retryErrorCodes.length > 0) { const code = err.code;
  if (!code) break; if (!retryErrorCodes.includes(code)) break }\<close>:
  true when the loop breaks here.
\<close>

definition breaksOnCode :: "string list option \<Rightarrow> thrown \<Rightarrow> bool" where
  "breaksOnCode retryErrorCodes e =
     (case retryErrorCodes of
        None \<Rightarrow> False
      | Some cs \<Rightarrow>
          if length cs > 0 then
            (case ecode e of
               None \<Rightarrow> True
             | Some c \<Rightarrow> if c = [] then True else c \<notin> set cs)
          else False)"

text \<open>\<open>await onError?.(attempt, err)\<close>: a missing callback yields \<open>undefined\<close>.\<close>

definition callOnError :: "(int \<Rightarrow> thrown \<Rightarrow> cbResult) option \<Rightarrow> int \<Rightarrow> thrown \<Rightarrow> cbResult" where
  "callOnError onError attempt e =
     (case onError of None \<Rightarrow> CbReturns None | Some f \<Rightarrow> f attempt e)"

text \<open>
  The \<open>for (; attempt <= maxRetry; attempt++)\<close> loop. The operation is stateful in the
  source; here \<open>operation k\<close> is the outcome of its \<open>k\<close>-th invocation, and \<open>calls\<close>
  counts the invocations made so far. The timers (per-attempt abort timer, backoff
  delay) only pass time between two iterations and are not part of the result.
\<close>

function retryLoop ::
  "(nat \<Rightarrow> 'a settled) \<Rightarrow> int \<Rightarrow> (int \<Rightarrow> thrown \<Rightarrow> cbResult) option \<Rightarrow> string list option
     \<Rightarrow> int \<Rightarrow> thrown option \<Rightarrow> nat \<Rightarrow> 'a retryResult \<times> nat" where
  "retryLoop operation maxR onError retryErrorCodes attempt lastError calls =
     (if attempt \<le> maxR then
        (case operation (Suc calls) of
           Fulfilled r \<Rightarrow> (Resolved r, Suc calls)
         | Threw e \<Rightarrow>
             if isAbortError e then (Rethrown e, Suc calls)
             else if breaksOnCode retryErrorCodes e
               then (OperationFailed (min attempt maxR) (Some e), Suc calls)
             else
               (case callOnError onError attempt e of
                  CbThrows x \<Rightarrow> (Rethrown x, Suc calls)
                | CbReturns a \<Rightarrow>
                    if a = Some STOP
                      then (OperationFailed (min attempt maxR) (Some e), Suc calls)
                    else retryLoop operation maxR onError retryErrorCodes
                           (attempt + 1) (Some e) (Suc calls)))
      else (OperationFailed (min attempt maxR) lastError, calls))"
  by pat_completeness auto
termination
  by (relation "measure (\<lambda>(operation, maxR, onError, retryErrorCodes, attempt, lastError, calls).
        nat (maxR + 1 - attempt))") auto

declare retryLoop.simps [simp del]

text \<open>
  \<open>const reqOpt = { ...DEFAULTS, ...opt };
  if (reqOpt.maxRetry == null || reqOpt.maxRetry < 1) reqOpt.maxRetry = 1\<close>
\<close>

definition effectiveMaxRetry :: "RetryOption option \<Rightarrow> int" where
  "effectiveMaxRetry opt =
     (case opt of
        None \<Rightarrow> DEFAULT_maxRetry
      | Some ro \<Rightarrow>
          (case maxRetry ro of
             Absent \<Rightarrow> DEFAULT_maxRetry
           | Nullish \<Rightarrow> 1
           | Given m \<Rightarrow> if m < 1 then 1 else m))"

definition withRetry ::
  "(nat \<Rightarrow> 'a settled) \<Rightarrow> RetryOption option \<Rightarrow> (int \<Rightarrow> thrown \<Rightarrow> cbResult) option
     \<Rightarrow> string list option \<Rightarrow> 'a retryResult \<times> nat" where
  "withRetry operation opt onError retryErrorCodes =
     retryLoop operation (effectiveMaxRetry opt) onError retryErrorCodes 1 None 0"

text \<open>An error the loop retries: not an abort error, not vetoed by the allow-list, and
  the callback neither throws nor answers \<open>STOP\<close>.\<close>

definition retried ::
  "(int \<Rightarrow> thrown \<Rightarrow> cbResult) option \<Rightarrow> string list option \<Rightarrow> int \<Rightarrow> thrown \<Rightarrow> bool" where
  "retried onError retryErrorCodes attempt e =
     (\<not> isAbortError e \<and> \<not> breaksOnCode retryErrorCodes e \<and>
      (case callOnError onError attempt e of
         CbThrows x \<Rightarrow> False
       | CbReturns a \<Rightarrow> a \<noteq> Some STOP))"

text \<open>The operation that throws \<open>errs 1, ..., errs n\<close> and then resolves with \<open>v\<close>.\<close>

definition failsThenSucceeds :: "nat \<Rightarrow> (nat \<Rightarrow> thrown) \<Rightarrow> 'a \<Rightarrow> nat \<Rightarrow> 'a settled" where
  "failsThenSucceeds n errs v k = (if k \<le> n then Threw (errs k) else Fulfilled v)"

definition withMaxRetry :: "int \<Rightarrow> RetryOption option" where
  "withMaxRetry m = Some \<lparr>maxRetry = Given m, baseDelay = Given 0, timeout = Given 0, maxDelay = Given 0\<rparr>"

section \<open>FileRotator.retention (transports/fileRotator.ts)\<close>

text \<open>\<open>String.prototype.startsWith\<close> and \<open>endsWith\<close>.\<close>

definition startsWith :: "string \<Rightarrow> string \<Rightarrow> bool" where
  "startsWith s p = prefix p s"









section \<open>AsyncJobQueue (packages/utils/src/asyncJobQueue.ts)\<close>

text \<open>
  The queue's three fields and its limit. A job is a value of type \<open>'j\<close>; calling it
  starts it, and its \<open>.finally\<close> callback runs once, after the job's promise has
  settled. A waiter is the \<open>resolve\<close> function of one pending \<open>drain()\<close> call, named
  by a number.
\<close>

record 'j AsyncJobQueue =
  concurrency :: int
  queue :: "'j list"
  running :: int
  waiters :: "nat list"

text \<open>\<open>constructor(private concurrency = 1) { this.concurrency = Math.max(1, concurrency) }\<close>\<close>

definition newAsyncJobQueue :: "int \<Rightarrow> 'j AsyncJobQueue" where
  "newAsyncJobQueue c = \<lparr>concurrency = max 1 c, queue = [], running = 0, waiters = []\<rparr>"

definition qlength :: "'j AsyncJobQueue \<Rightarrow> nat" where
  "qlength q = length (queue q)"

text \<open>
  \<open>while (this.running < this.concurrency && this.queue.length > 0)
  { const job = this.queue.shift()!; this.running++; job()... }\<close>.
  The result is the queue and the jobs started, in order.
\<close>

function schedule :: "'j AsyncJobQueue \<Rightarrow> 'j AsyncJobQueue \<times> 'j list" where
  "schedule q =
     (if running q < concurrency q \<and> queue q \<noteq> [] then
        (let (q', started) = schedule (q\<lparr>queue := tl (queue q), running := running q + 1\<rparr>)
         in (q', hd (queue q) # started))
      else (q, []))"
  by pat_completeness auto
termination
  by (relation "measure (\<lambda>q. length (queue q))") auto

declare schedule.simps [simp del]

definition enqueue :: "'j \<Rightarrow> 'j AsyncJobQueue \<Rightarrow> 'j AsyncJobQueue \<times> 'j list" where
  "enqueue job q = schedule (q\<lparr>queue := queue q @ [job]\<rparr>)"

text \<open>
  \<open>drain()\<close> by caller \<open>w\<close>: it returns at once (\<open>True\<close>) when nothing runs and nothing
  waits, and otherwise leaves its \<open>resolve\<close> among the waiters.
\<close>

definition drain :: "nat \<Rightarrow> 'j AsyncJobQueue \<Rightarrow> 'j AsyncJobQueue \<times> bool" where
  "drain w q =
     (if running q = 0 \<and> queue q = [] then (q, True)
      else (q\<lparr>waiters := waiters q @ [w]\<rparr>, False))"

text \<open>
  The \<open>.finally\<close> callback of a started job: \<open>this.running--; this.schedule();
  if (this.running === 0 && this.queue.length === 0)
  { this.waiters.forEach((f) => f()); this.waiters = [] }\<close>.
  The result is the queue, the jobs started and the waiters resolved.
\<close>

definition jobFinally :: "'j AsyncJobQueue \<Rightarrow> 'j AsyncJobQueue \<times> 'j list \<times> nat list" where
  "jobFinally q =
     (let (q1, started) = schedule (q\<lparr>running := running q - 1\<rparr>)
      in if running q1 = 0 \<and> queue q1 = []
         then (q1\<lparr>waiters := []\<rparr>, started, waiters q1)
         else (q1, started, []))"

text \<open>
  A queue in use: the queue object, the jobs started whose \<open>.finally\<close> has not run yet,
  and a record of what happened: the jobs enqueued, the jobs whose \<open>.finally\<close> has
  run, and the \<open>drain()\<close> calls completed, in order.
\<close>

record 'j queueSystem =
  jq :: "'j AsyncJobQueue"
  active :: "'j list"
  enqueued :: "'j list"
  settledJobs :: "'j list"
  drained :: "nat list"

datatype 'j queueEvent = Enqueue 'j | Drain nat | Finally 'j

definition queueInit :: "int \<Rightarrow> 'j queueSystem" where
  "queueInit c = \<lparr>jq = newAsyncJobQueue c, active = [], enqueued = [], settledJobs = [],
     drained = []\<rparr>"

text \<open>One event. \<open>Finally job\<close> can only happen for a job that was started and has not
  finished; otherwise there is no such event (\<open>None\<close>).\<close>

fun queueStep :: "'j queueSystem \<Rightarrow> 'j queueEvent \<Rightarrow> 'j queueSystem option" where
  "queueStep s (Enqueue job) =
     (let (q', started) = enqueue job (jq s)
      in Some (s\<lparr>jq := q', active := active s @ started, enqueued := enqueued s @ [job]\<rparr>))"
| "queueStep s (Drain w) =
     (let (q', now) = drain w (jq s)
      in Some (s\<lparr>jq := q', drained := drained s @ (if now then [w] else [])\<rparr>))"
| "queueStep s (Finally job) =
     (if job \<in> set (active s) then
        (let (q', started, resolved) = jobFinally (jq s)
         in Some (s\<lparr>jq := q', active := remove1 job (active s) @ started,
                    settledJobs := settledJobs s @ [job], drained := drained s @ resolved\<rparr>))
      else None)"

fun queueRun :: "'j queueSystem \<Rightarrow> 'j queueEvent list \<Rightarrow> 'j queueSystem option" where
  "queueRun s [] = Some s"
| "queueRun s (e # es) = (case queueStep s e of None \<Rightarrow> None | Some s' \<Rightarrow> queueRun s' es)"

text \<open>What holds of every queue in use.\<close>

definition queueInv :: "'j queueSystem \<Rightarrow> bool" where
  "queueInv s =
     (running (jq s) = int (length (active s)) \<and>
      1 \<le> concurrency (jq s) \<and>
      running (jq s) \<le> concurrency (jq s) \<and>
      (queue (jq s) \<noteq> [] \<longrightarrow> running (jq s) = concurrency (jq s)) \<and>
      (waiters (jq s) \<noteq> [] \<longrightarrow> active s \<noteq> []) \<and>
      mset (enqueued s) = mset (settledJobs s) + mset (active s) + mset (queue (jq s)))"

section \<open>Transport: the worker handshake (transports/transport.ts)\<close>

text \<open>
  \<open>options.worker\<close> as the caller passes it, and after \<open>merge(DEFAULTS, options)\<close>:
  a missing property keeps the default (\<open>closeTimeout: 60_000, readyTimeout: 30_000\<close>),
  a property that is present overrides it, also with \<open>undefined\<close>.
\<close>

record workerOptionsGiven =
  closeTimeoutGiven :: "nat field"
  readyTimeoutGiven :: "nat field"

record workerOptions =
  closeTimeout :: "nat option"
  readyTimeout :: "nat option"

definition mergedField :: "nat \<Rightarrow> nat field \<Rightarrow> nat option" where
  "mergedField dflt f = (case f of Absent \<Rightarrow> Some dflt | Nullish \<Rightarrow> None | Given n \<Rightarrow> Some n)"

definition mergeWorkerOptions :: "workerOptionsGiven field \<Rightarrow> workerOptions option" where
  "mergeWorkerOptions w =
     (case w of
        Absent \<Rightarrow> Some \<lparr>closeTimeout = Some 60000, readyTimeout = Some 30000\<rparr>
      | Nullish \<Rightarrow> None
      | Given g \<Rightarrow> Some \<lparr>closeTimeout = mergedField 60000 (closeTimeoutGiven g),
                          readyTimeout = mergedField 30000 (readyTimeoutGiven g)\<rparr>)"

text \<open>A message from the worker is a string or some other value.\<close>

datatype wireMsg = Text string | Structured nat

text \<open>What the three listeners of a handshake can receive.\<close>

datatype workerEvent = OnMessage wireMsg | OnError thrown | OnExit int

datatype handshakeError =
  Unexpected string wireMsg
| WorkerFailed thrown
| ExitedEarly int
| TimedOut nat

datatype handshakeResult = HandshakeOk | HandshakeFailed handshakeError

definition WORKER_ERROR :: string where
  "WORKER_ERROR = ''WORKER_ERROR:''"

text \<open>
  \<open>onMessage\<close>: \<open>None\<close> when the listener returns without settling the promise.
\<close>

definition onMessage :: "string \<Rightarrow> wireMsg \<Rightarrow> handshakeResult option" where
  "onMessage expectedReply m =
     (if (case m of Text s \<Rightarrow> startsWith s WORKER_ERROR | Structured v \<Rightarrow> False) then None
      else if m = Text expectedReply then Some HandshakeOk
      else Some (HandshakeFailed (Unexpected expectedReply m)))"

fun listener :: "string \<Rightarrow> workerEvent \<Rightarrow> handshakeResult option" where
  "listener expectedReply (OnMessage m) = onMessage expectedReply m"
| "listener expectedReply (OnError err) = Some (HandshakeFailed (WorkerFailed err))"
| "listener expectedReply (OnExit code) = Some (HandshakeFailed (ExitedEarly code))"

text \<open>
  \<open>withTimeout(handshake, ms)\<close>: the events reach the listeners in order, each at its
  time in milliseconds after the command was posted; the timer fires at \<open>ms\<close>. The
  first listener that settles the promise removes all three (\<open>cleanup\<close>), so later
  events are not seen. The result comes with the time at which it is known.
\<close>

fun handshake :: "string \<Rightarrow> nat \<Rightarrow> (nat \<times> workerEvent) list \<Rightarrow> handshakeResult \<times> nat" where
  "handshake expectedReply ms [] = (HandshakeFailed (TimedOut ms), ms)"
| "handshake expectedReply ms ((t, ev) # rest) =
     (if ms \<le> t then (HandshakeFailed (TimedOut ms), ms)
      else (case listener expectedReply ev of
              None \<Rightarrow> handshake expectedReply ms rest
            | Some r \<Rightarrow> (r, t)))"

text \<open>\<open>this.options.worker?.closeTimeout ?? 0\<close>\<close>

definition handshakeTimeout :: "workerOptions option \<Rightarrow> nat" where
  "handshakeTimeout w =
     (case w of None \<Rightarrow> 0 | Some o' \<Rightarrow> (case closeTimeout o' of None \<Rightarrow> 0 | Some ms \<Rightarrow> ms))"

text \<open>
  \<open>workerHandshake(command, expectedReply)\<close>: without a worker it returns at once.
\<close>

definition workerHandshake ::
  "workerOptions option \<Rightarrow> bool \<Rightarrow> string \<Rightarrow> (nat \<times> workerEvent) list \<Rightarrow> handshakeResult \<times> nat" where
  "workerHandshake w hasWorker expectedReply events =
     (if \<not> hasWorker then (HandshakeOk, 0)
      else handshake expectedReply (handshakeTimeout w) events)"

definition drainWorker :: "workerOptions option \<Rightarrow> bool \<Rightarrow> (nat \<times> workerEvent) list \<Rightarrow> handshakeResult \<times> nat" where
  "drainWorker w hasWorker events = workerHandshake w hasWorker ''drained'' events"

definition closeWorkerHandshake :: "workerOptions option \<Rightarrow> bool \<Rightarrow> (nat \<times> workerEvent) list \<Rightarrow> handshakeResult \<times> nat" where
  "closeWorkerHandshake w hasWorker events = workerHandshake w hasWorker ''closed'' events"

text \<open>\<open>runAsWorker\<close>, once \<open>this.worker\<close> is set: the handshake that waits for \<open>ready\<close>.\<close>

definition runAsWorkerHandshake :: "workerOptions option \<Rightarrow> (nat \<times> workerEvent) list \<Rightarrow> handshakeResult \<times> nat" where
  "runAsWorkerHandshake w events = workerHandshake w True ''ready'' events"

text \<open>A message that carries the error prefix.\<close>

definition errorTagged :: "workerEvent \<Rightarrow> bool" where
  "errorTagged ev = (case ev of OnMessage (Text s) \<Rightarrow> startsWith s WORKER_ERROR | _ \<Rightarrow> False)"

section \<open>FileRotator (transports/fileRotator.ts)\<close>

datatype Interval = Daily | Hourly

text \<open>\<open>RotationOptions\<close>; a missing \<open>compress\<close> is falsy.\<close>

record RotationOptions =
  maxSize :: "nat option"
  interval :: "Interval option"
  maxFiles :: "int option"
  compress :: bool

text \<open>\<open>computeKey\<close> at the instant whose ISO timestamp is \<open>now\<close>.\<close>

definition computeKey :: "RotationOptions \<Rightarrow> string \<Rightarrow> string option" where
  "computeKey ro now =
     (case interval ro of
        None \<Rightarrow> None
      | Some Hourly \<Rightarrow> Some (take 13 now)
      | Some Daily \<Rightarrow> Some (take 10 now))"

text \<open>The rotator's fields; \<open>rotationPromise\<close> says whether a promise is stored.\<close>

record FileRotator =
  opts :: RotationOptions
  currentKey :: "string option"
  isRotating :: bool
  rotationPromise :: bool

definition newFileRotator :: "RotationOptions \<Rightarrow> string \<Rightarrow> FileRotator" where
  "newFileRotator ro now =
     \<lparr>opts = ro, currentKey = computeKey ro now, isRotating = False, rotationPromise = False\<rparr>"

definition shouldRotate :: "FileRotator \<Rightarrow> string \<Rightarrow> nat \<Rightarrow> FileRotator \<times> bool" where
  "shouldRotate r now currentSize =
     (let key = computeKey (opts r) now
      in if interval (opts r) \<noteq> None \<and> key \<noteq> currentKey r
           then (r\<lparr>currentKey := key\<rparr>, True)
         else (case maxSize (opts r) of
                 None \<Rightarrow> (r, False)
               | Some m \<Rightarrow> if m = 0 then (r, False) else (r, currentSize \<ge> m)))"

text \<open>
  \<open>rotate\<close> is asynchronous: it waits for \<open>closeStream()\<close>, for the rename, for the
  compression and for the pruning, and other calls of \<open>rotate\<close> can arrive while it
  waits. The model records what a rotation does to its surroundings
  (\<open>rotAction\<close>), where the rotation in flight stands (\<open>rotPhase\<close>), who started it,
  which callers wait for \<open>rotationPromise\<close>, and what each finished call returned.
\<close>

datatype rotAction = CloseSink | Rename | Compress | Prune | OpenSink | ReportError string

datatype rotPhase = Idle | AwaitCloseSink | AwaitRename | AwaitCompress | AwaitRetention | Stuck

datatype rotResult = Returned bool | Rejected

text \<open>
  What the surroundings answer when the awaited step is over: whether it succeeded,
  whether \<open>onError\<close> throws when called, whether \<open>openStream\<close> throws when called, and
  the time.
\<close>

record rotAnswer =
  stepOk :: bool
  onErrorThrows :: bool
  openSinkThrows :: bool
  clock :: string

record rotation =
  rotator :: FileRotator
  phase :: rotPhase
  owner :: nat
  joiners :: "nat list"
  actions :: "rotAction list"
  results :: "(nat \<times> rotResult) list"

datatype rotEvent = Rotate nat | Settles rotAnswer


text \<open>
  The \<open>finally\<close> block and the return: \<open>openStream(); this.isRotating = false;
  this.rotationPromise = undefined; resolve()\<close>. When \<open>openStream\<close> throws, the three
  statements after it do not run and the call rejects. Resolving the promise lets
  every waiting caller return \<open>false\<close>.
\<close>

definition finish :: "rotation \<Rightarrow> rotAnswer \<Rightarrow> rotResult \<Rightarrow> rotation" where
  "finish s a res =
     (if openSinkThrows a then
        s\<lparr>actions := actions s @ [OpenSink], phase := Stuck,
          results := results s @ [(owner s, Rejected)]\<rparr>
      else
        s\<lparr>rotator := (rotator s)\<lparr>isRotating := False, rotationPromise := False\<rparr>,
          actions := actions s @ [OpenSink], phase := Idle,
          results := results s @ [(owner s, res)] @ map (\<lambda>c. (c, Returned False)) (joiners s),
          joiners := []\<rparr>)"

text \<open>The end of \<open>doRotate\<close>: \<open>this.currentKey = this.computeKey(); return true\<close>.\<close>

definition completeRotate :: "rotation \<Rightarrow> rotAnswer \<Rightarrow> rotation" where
  "completeRotate s a =
     finish (s\<lparr>rotator := (rotator s)\<lparr>currentKey := computeKey (opts (rotator s)) (clock a)\<rparr>\<rparr>)
       a (Returned True)"

text \<open>\<open>if (maxFiles != null) { try { await this.retention(...) } ... }\<close>\<close>

definition toRetention :: "rotation \<Rightarrow> rotAnswer \<Rightarrow> rotation" where
  "toRetention s a =
     (if maxFiles (opts (rotator s)) \<noteq> None
        then s\<lparr>actions := actions s @ [Prune], phase := AwaitRetention\<rparr>
      else completeRotate s a)"

text \<open>\<open>if (compress && maxFiles != 0) { try { await this.compress(rotated) } ... }\<close>\<close>

definition toCompress :: "rotation \<Rightarrow> rotAnswer \<Rightarrow> rotation" where
  "toCompress s a =
     (if compress (opts (rotator s)) \<and> maxFiles (opts (rotator s)) \<noteq> Some 0
        then s\<lparr>actions := actions s @ [Compress], phase := AwaitCompress\<rparr>
      else toRetention s a)"

text \<open>\<open>catch (err) { onError(new Error(msg, { cause: err })) }\<close>, then \<open>continue'\<close>,
  unless \<open>onError\<close> throws: then \<open>doRotate\<close> rejects.\<close>

definition reportThen ::
  "string \<Rightarrow> (rotation \<Rightarrow> rotation) \<Rightarrow> rotation \<Rightarrow> rotAnswer \<Rightarrow> rotation" where
  "reportThen m continue' s a =
     (let s1 = s\<lparr>actions := actions s @ [ReportError m]\<rparr>
      in if onErrorThrows a then finish s1 a Rejected else continue' s1)"

fun rotStep :: "rotation \<Rightarrow> rotEvent \<Rightarrow> rotation" where
  "rotStep s (Rotate c) =
     (if isRotating (rotator s) then s\<lparr>joiners := joiners s @ [c]\<rparr>
      else s\<lparr>rotator := (rotator s)\<lparr>isRotating := True, rotationPromise := True\<rparr>,
             owner := c, actions := actions s @ [CloseSink], phase := AwaitCloseSink\<rparr>)"
| "rotStep s (Settles a) =
     (case phase s of
        Idle \<Rightarrow> s
      | Stuck \<Rightarrow> s
      | AwaitCloseSink \<Rightarrow>
          if stepOk a then s\<lparr>actions := actions s @ [Rename], phase := AwaitRename\<rparr>
          else finish s a Rejected
      | AwaitRename \<Rightarrow>
          if stepOk a then toCompress s a
          else reportThen ''Failed to rename log.'' (\<lambda>s1. finish s1 a (Returned False)) s a
      | AwaitCompress \<Rightarrow>
          if stepOk a then toRetention s a
          else reportThen ''Failed to compress log.'' (\<lambda>s1. toRetention s1 a) s a
      | AwaitRetention \<Rightarrow>
          if stepOk a then completeRotate s a
          else reportThen ''Failed to prune log files.'' (\<lambda>s1. completeRotate s1 a) s a)"

fun rotRun :: "rotation \<Rightarrow> rotEvent list \<Rightarrow> rotation" where
  "rotRun s [] = s"
| "rotRun s (e # es) = rotRun (rotStep s e) es"






section \<open>Transport and its three sinks (transports/*.ts)\<close>

datatype sinkKind = ConsoleSink | FileSink | HttpSink

text \<open>What \<open>handleError\<close> is given, as far as the counters care.\<close>

datatype report =
  TransportClosed
| TransportClosing
| PostFailed
| MergeFailed
| FormatFailed
| OpenFailed
| DeliveryFailed
| RotateFailed
| StatsProblem

text \<open>
  The options of a transport and the collaborators it calls, for log entries of type
  \<open>'l\<close>: \<open>formats\<close> is \<open>formatter.format\<close> (\<open>None\<close> when it throws), \<open>merges\<close> is
  \<open>merge(log, context)\<close> (\<open>None\<close> when it throws), \<open>clones\<close> says whether
  \<open>worker.postMessage(log)\<close> returns normally, \<open>parses\<close> is \<open>JSON.parse\<close>.
  \<open>batchSize\<close> and \<open>queueLimit\<close> are the options \<open>batchSize\<close> and \<open>concurrency\<close>.
\<close>

record 'l sinkConfig =
  kind :: sinkKind
  useJobQueue :: bool
  batchSize :: nat
  queueLimit :: int
  hasContext :: bool
  rotateOpts :: "RotationOptions option"
  formats :: "'l list \<Rightarrow> string option"
  merges :: "'l \<Rightarrow> 'l option"
  clones :: "'l \<Rightarrow> bool"
  parses :: "string \<Rightarrow> 'l option"

text \<open>
  What the surroundings answer during one synchronous step: the time, the size
  \<open>statSync\<close> reports for the log file (\<open>None\<close> when it throws), and whether
  \<open>ensureDir\<close> or \<open>openStream\<close> throws.
\<close>

record world =
  wnow :: string
  statSize :: "nat option"
  openFails :: bool

datatype 'l wire = Entry 'l | Raw string | Command string

text \<open>Where a running \<open>close()\<close> stands.\<close>

datatype closePc =
  NotCalled
| AwaitingDrain nat
| DrainDone nat
| Sleeping nat
| AwaitingDoClose
| CloseDone
| CloseRejected

text \<open>
  The fields of \<open>Transport\<close> and of its subclasses. A job of the queue is the number
  of log entries it stands for; \<open>startedJobs\<close> are the jobs started whose \<open>.finally\<close> has
  not run; \<open>writing\<close> counts the writes of \<open>ConsoleTransport\<close> made without the queue
  and not yet settled; \<open>held\<close> is the body length and the batch length that the
  callback of a pending rotation holds, and \<open>rotationStarted\<close> says that the
  \<open>drain()\<close> before that rotation has resolved. \<open>flushRotating\<close> is the field
  \<open>isRotating\<close> of \<open>FileTransport\<close>.
\<close>

record 'l transport =
  isClosing :: bool
  isClosed :: bool
  logRequests :: nat
  logProcessed :: nat
  worker :: bool
  posted :: "'l wire list"
  reported :: "report list"
  jobs :: "nat AsyncJobQueue"
  startedJobs :: "nat list"
  buffer :: "'l list"
  writing :: nat
  isOpen :: bool
  currentSize :: nat
  flushRotating :: bool
  isFlushing :: bool
  held :: "(nat \<times> nat) option"
  rotationStarted :: bool
  fileRotator :: "FileRotator option"
  flushTimer :: bool
  closing :: closePc

definition ROTATION_WAITER :: nat where
  "ROTATION_WAITER = 0"

definition CLOSE_WAITER :: nat where
  "CLOSE_WAITER = 1"

text \<open>A transport as its constructor leaves it, on the main thread.\<close>

definition newTransport :: "'l sinkConfig \<Rightarrow> string \<Rightarrow> 'l transport" where
  "newTransport cfg now =
     \<lparr>isClosing = False, isClosed = False, logRequests = 0, logProcessed = 0,
      worker = False, posted = [], reported = [],
      jobs = newAsyncJobQueue (queueLimit cfg), startedJobs = [], buffer = [], writing = 0,
      isOpen = False, currentSize = 0, flushRotating = False, isFlushing = False,
      held = None, rotationStarted = False,
      fileRotator = (if kind cfg = FileSink
                     then map_option (\<lambda>ro. newFileRotator ro now) (rotateOpts cfg) else None),
      flushTimer = (kind cfg \<noteq> ConsoleSink),
      closing = NotCalled\<rparr>"

text \<open>\<open>handleError\<close> outside a worker: the error reaches \<open>onError\<close> or \<open>console.error\<close>.\<close>

definition handleError :: "'l transport \<Rightarrow> report \<Rightarrow> 'l transport" where
  "handleError t r = t\<lparr>reported := reported t @ [r]\<rparr>"

definition checkTransportState :: "'l transport \<Rightarrow> report option" where
  "checkTransportState t =
     (if isClosed t then Some TransportClosed
      else if isClosing t then Some TransportClosing
      else None)"

text \<open>\<open>this.queue.enqueue(job)\<close> for a job that stands for \<open>n\<close> entries.\<close>

definition enqueueJob :: "nat \<Rightarrow> 'l transport \<Rightarrow> 'l transport" where
  "enqueueJob n t =
     (let (q, st) = enqueue n (jobs t) in t\<lparr>jobs := q, startedJobs := startedJobs t @ st\<rparr>)"

text \<open>\<open>FileTransport.sendBody(body, length)\<close>\<close>

definition sendBody :: "nat \<Rightarrow> nat \<Rightarrow> 'l transport \<Rightarrow> 'l transport" where
  "sendBody bodyLength n t = enqueueJob n (t\<lparr>currentSize := currentSize t + bodyLength\<rparr>)"

definition openStream :: "world \<Rightarrow> 'l transport \<Rightarrow> 'l transport" where
  "openStream w t =
     t\<lparr>currentSize := (case statSize w of None \<Rightarrow> 0 | Some n \<Rightarrow> n), isOpen := True\<rparr>"

text \<open>\<open>this.isRotating = true; queue.drain().then(() => rotator.rotate(...)...)\<close>\<close>

definition beginRotation :: "nat \<Rightarrow> nat \<Rightarrow> 'l transport \<Rightarrow> 'l transport" where
  "beginRotation bodyLength n t =
     (let (q, now) = drain ROTATION_WAITER (jobs t)
      in t\<lparr>flushRotating := True, held := Some (bodyLength, n), jobs := q,
           rotationStarted := now\<rparr>)"

text \<open>
  The loop of \<open>FileTransport.flush\<close> over the entries \<open>buf\<close> still buffered:
  \<open>while (this.buffer.length) { const batch = this.buffer.splice(0, batchSize); ... }\<close>.
  With a batch size of 0 the source never leaves the loop: \<open>None\<close>.
\<close>

function flushLoop ::
  "'l sinkConfig \<Rightarrow> world \<Rightarrow> 'l list \<Rightarrow> 'l transport \<Rightarrow> 'l transport option" where
  "flushLoop cfg w buf t =
     (if buf = [] then Some (t\<lparr>buffer := []\<rparr>)
      else if batchSize cfg = 0 then None
      else
        (case formats cfg (take (batchSize cfg) buf) of
           None \<Rightarrow> flushLoop cfg w (drop (batchSize cfg) buf) (handleError t FormatFailed)
         | Some body \<Rightarrow>
             (case (if currentSize t \<noteq> 0 then fileRotator t else None) of
                None \<Rightarrow>
                  flushLoop cfg w (drop (batchSize cfg) buf)
                    (sendBody (length body) (length (take (batchSize cfg) buf)) t)
              | Some r \<Rightarrow>
                  if snd (shouldRotate r (wnow w) (currentSize t + length body)) then
                    Some (beginRotation (length body) (length (take (batchSize cfg) buf))
                      (t\<lparr>buffer := drop (batchSize cfg) buf,
                         fileRotator := Some (fst (shouldRotate r (wnow w)
                                                (currentSize t + length body)))\<rparr>))
                  else
                    flushLoop cfg w (drop (batchSize cfg) buf)
                      (sendBody (length body) (length (take (batchSize cfg) buf))
                        (t\<lparr>fileRotator := Some (fst (shouldRotate r (wnow w)
                                                (currentSize t + length body)))\<rparr>)))))"
  by pat_completeness auto
termination
  by (relation "measure (\<lambda>(cfg, w, buf, t). length buf)") (auto simp: neq_Nil_conv)

declare flushLoop.simps [simp del]

text \<open>
  A synchronous call returns normally with the new state, throws with the state it
  leaves behind, or never returns (\<open>None\<close>).
\<close>

type_synonym 'l outcome = "('l transport \<times> report option) option"

text \<open>\<open>FileTransport.flush\<close>\<close>

definition fileFlush :: "'l sinkConfig \<Rightarrow> world \<Rightarrow> 'l transport \<Rightarrow> 'l outcome" where
  "fileFlush cfg w t =
     (if isFlushing t then Some (t, None)
      else if flushRotating t then Some (t, None)
      else if \<not> isOpen t \<and> openFails w then Some (t\<lparr>isFlushing := False\<rparr>, Some OpenFailed)
      else
        (case flushLoop cfg w (buffer t) (if isOpen t then t else openStream w t) of
           None \<Rightarrow> None
         | Some t' \<Rightarrow> Some (t'\<lparr>isFlushing := False\<rparr>, None)))"

text \<open>\<open>HttpTransport.flush\<close>: one job per batch.\<close>

function httpFlushLoop :: "'l sinkConfig \<Rightarrow> 'l list \<Rightarrow> 'l transport \<Rightarrow> 'l transport option" where
  "httpFlushLoop cfg buf t =
     (if buf = [] then Some (t\<lparr>buffer := []\<rparr>)
      else if batchSize cfg = 0 then None
      else httpFlushLoop cfg (drop (batchSize cfg) buf)
             (enqueueJob (length (take (batchSize cfg) buf)) t))"
  by pat_completeness auto
termination
  by (relation "measure (\<lambda>(cfg, buf, t). length buf)") (auto simp: neq_Nil_conv)

declare httpFlushLoop.simps [simp del]

text \<open>\<open>flush()\<close> of the three sinks; the one of \<open>ConsoleTransport\<close> is empty.\<close>

definition flush :: "'l sinkConfig \<Rightarrow> world \<Rightarrow> 'l transport \<Rightarrow> 'l outcome" where
  "flush cfg w t =
     (case kind cfg of
        ConsoleSink \<Rightarrow> Some (t, None)
      | FileSink \<Rightarrow> fileFlush cfg w t
      | HttpSink \<Rightarrow> map_option (\<lambda>t'. (t', None)) (httpFlushLoop cfg (buffer t) t))"

text \<open>\<open>doLog\<close> of the three sinks.\<close>

definition doLog :: "'l sinkConfig \<Rightarrow> world \<Rightarrow> 'l \<Rightarrow> 'l transport \<Rightarrow> 'l outcome" where
  "doLog cfg w l t =
     (case kind cfg of
        ConsoleSink \<Rightarrow>
          (case formats cfg [l] of
             None \<Rightarrow> Some (t, Some FormatFailed)
           | Some line \<Rightarrow>
               if useJobQueue cfg then Some (enqueueJob 1 t, None)
               else Some (t\<lparr>writing := writing t + 1\<rparr>, None))
      | _ \<Rightarrow>
          (if length (buffer t @ [l]) \<ge> batchSize cfg
             then flush cfg w (t\<lparr>buffer := buffer t @ [l]\<rparr>)
           else Some (t\<lparr>buffer := buffer t @ [l]\<rparr>, None)))"

text \<open>The \<open>try\<close> block of \<open>Transport.log\<close>, after \<open>this.logRequests++\<close>.\<close>

definition logTry :: "'l sinkConfig \<Rightarrow> world \<Rightarrow> 'l \<Rightarrow> 'l transport \<Rightarrow> 'l outcome" where
  "logTry cfg w l t =
     (case checkTransportState t of
        Some err \<Rightarrow> Some (t, Some err)
      | None \<Rightarrow>
          if worker t then
            (if clones cfg l then Some (t\<lparr>posted := posted t @ [Entry l]\<rparr>, None)
             else Some (t, Some PostFailed))
          else
            (case (if hasContext cfg then merges cfg l else Some l) of
               None \<Rightarrow> Some (t, Some MergeFailed)
             | Some l' \<Rightarrow> doLog cfg w l' t))"

text \<open>\<open>Transport.log\<close>: \<open>catch (err) { this.logProcessed++; this.handleError({ err, log }) }\<close>\<close>

definition log :: "'l sinkConfig \<Rightarrow> world \<Rightarrow> 'l \<Rightarrow> 'l transport \<Rightarrow> 'l transport option" where
  "log cfg w l t =
     (case logTry cfg w l (t\<lparr>logRequests := logRequests t + 1\<rparr>) of
        None \<Rightarrow> None
      | Some (t', None) \<Rightarrow> Some t'
      | Some (t', Some err) \<Rightarrow>
          Some (handleError (t'\<lparr>logProcessed := logProcessed t' + 1\<rparr>) err))"



text \<open>\<open>assertStats\<close>\<close>

definition statsProblem :: "'l transport \<Rightarrow> bool" where
  "statsProblem t = (logProcessed t \<noteq> logRequests t \<or> qlength (jobs t) > 0)"

definition assertStats :: "'l transport \<Rightarrow> 'l transport" where
  "assertStats t =
     (if worker t then t
      else if statsProblem t then handleError t StatsProblem
      else t)"

text \<open>
  How a started job ends: its write or request went through, failed for good (reported,
  and counted all the same), or --- for \<open>HttpTransport.sendBatch\<close> only --- the job
  threw before its retry chain existed (formatting, the URL or the authenticator), so
  that its \<open>.finally\<close> never counts the batch.
\<close>

datatype jobOutcome = Delivered | Failed | Abandoned

text \<open>
  What can happen to a transport on the main thread, one event at a time: a call of
  \<open>log\<close>; the flush timer; the end of a started job, of a direct console write, of the
  pending rotation; a call of \<open>close\<close> and the three points at which it resumes.
\<close>

datatype 'l event =
  Log 'l
| Tick
| JobSettles nat jobOutcome
| WriteSettles bool
| RotationSettles bool nat
| Close
| DrainResumes
| PollWakes
| DoCloseSettles

text \<open>The waiters that \<open>jobFinally\<close> resolved resume their callers.\<close>

definition notify :: "nat list \<Rightarrow> 'l transport \<Rightarrow> 'l transport" where
  "notify resolved t =
     (let t1 = (if ROTATION_WAITER \<in> set resolved then t\<lparr>rotationStarted := True\<rparr> else t)
      in if CLOSE_WAITER \<in> set resolved then
           (case closing t1 of AwaitingDrain snap \<Rightarrow> t1\<lparr>closing := DrainDone snap\<rparr> | _ \<Rightarrow> t1)
         else t1)"

text \<open>
  The \<open>.finally\<close> of the \<open>i\<close>-th started job (\<open>this.logProcessed += length\<close>, or \<open>++\<close>),
  then the \<open>.finally\<close> of the queue.
\<close>

definition jobSettles ::
  "'l sinkConfig \<Rightarrow> nat \<Rightarrow> jobOutcome \<Rightarrow> 'l transport \<Rightarrow> 'l transport option" where
  "jobSettles cfg i oc t =
     (if i < length (startedJobs t) \<and> (oc = Abandoned \<longrightarrow> kind cfg = HttpSink) then
        (let n = startedJobs t ! i;
             t1 = t\<lparr>startedJobs := take i (startedJobs t) @ drop (Suc i) (startedJobs t),
                    logProcessed := logProcessed t + (if oc = Abandoned then 0 else n)\<rparr>;
             t2 = (if oc = Failed then handleError t1 DeliveryFailed else t1);
             (q, st, resolved) = jobFinally (jobs t2)
         in Some (notify resolved (t2\<lparr>jobs := q, startedJobs := startedJobs t2 @ st\<rparr>)))
      else None)"

text \<open>
  One round of \<open>waitUntil\<close> in \<open>flushAndWait\<close>: \<open>doFlushAndWait()\<close> up to its
  \<open>await this.queue?.drain()\<close>. When \<open>flush\<close> throws, \<open>close()\<close> rejects.
\<close>

definition pollOnce :: "'l sinkConfig \<Rightarrow> world \<Rightarrow> nat \<Rightarrow> 'l transport \<Rightarrow> 'l transport option" where
  "pollOnce cfg w snap t =
     (case flush cfg w t of
        None \<Rightarrow> None
      | Some (t1, Some err) \<Rightarrow> Some (t1\<lparr>closing := CloseRejected\<rparr>)
      | Some (t1, None) \<Rightarrow>
          (let (q, now) = drain CLOSE_WAITER (jobs t1)
           in Some (t1\<lparr>jobs := q,
                       closing := (if now then DrainDone snap else AwaitingDrain snap)\<rparr>)))"

text \<open>
  The end of the pending rotation: \<open>rotate\<close> has closed and reopened the stream and
  reported \<open>errs\<close> errors; then \<open>this.sendBody(body, batch.length); this.currentSize = 0;
  this.isRotating = false; this.isFlushing = false; this.flush()\<close>.
\<close>

definition rotationSettles ::
  "'l sinkConfig \<Rightarrow> world \<Rightarrow> bool \<Rightarrow> nat \<Rightarrow> 'l transport \<Rightarrow> 'l transport option" where
  "rotationSettles cfg w completed errs t =
     (case held t of
        None \<Rightarrow> None
      | Some (bodyLength, n) \<Rightarrow>
          if rotationStarted t then
            (let t1 = foldl handleError (openStream w (t\<lparr>isOpen := False\<rparr>))
                        (replicate errs RotateFailed);
                 t2 = t1\<lparr>fileRotator :=
                         map_option (\<lambda>r. if completed
                                          then r\<lparr>currentKey := computeKey (opts r) (wnow w)\<rparr>
                                          else r) (fileRotator t1)\<rparr>;
                 t3 = (sendBody bodyLength n t2)\<lparr>currentSize := 0, flushRotating := False,
                         isFlushing := False, held := None, rotationStarted := False\<rparr>
             in map_option fst (flush cfg w t3))
          else None)"

text \<open>One event, with what the surroundings answer during it.\<close>

fun step :: "'l sinkConfig \<Rightarrow> 'l transport \<Rightarrow> world \<times> 'l event \<Rightarrow> 'l transport option" where
  "step cfg t (w, Log l) = log cfg w l t"
| "step cfg t (w, Tick) =
     (if flushTimer t \<and> \<not> worker t then map_option fst (flush cfg w t) else Some t)"
| "step cfg t (w, JobSettles i oc) = jobSettles cfg i oc t"
| "step cfg t (w, WriteSettles ok) =
     (if writing t > 0 then
        (let t1 = t\<lparr>writing := writing t - 1, logProcessed := logProcessed t + 1\<rparr>
         in Some (if ok then t1 else handleError t1 DeliveryFailed))
      else None)"
| "step cfg t (w, RotationSettles completed errs) = rotationSettles cfg w completed errs t"
| "step cfg t (w, Close) =
     (if worker t \<or> closing t \<noteq> NotCalled then None
      else pollOnce cfg w (logRequests t) (t\<lparr>isClosing := True\<rparr>))"
| "step cfg t (w, DrainResumes) =
     (case closing t of
        DrainDone snap \<Rightarrow>
          if logProcessed t \<ge> snap
            then Some (t\<lparr>flushTimer := False, closing := AwaitingDoClose\<rparr>)
          else Some (t\<lparr>closing := Sleeping snap\<rparr>)
      | _ \<Rightarrow> None)"
| "step cfg t (w, PollWakes) =
     (case closing t of Sleeping snap \<Rightarrow> pollOnce cfg w snap t | _ \<Rightarrow> None)"
| "step cfg t (w, DoCloseSettles) =
     (case closing t of
        AwaitingDoClose \<Rightarrow>
          Some ((assertStats (t\<lparr>isOpen := (if kind cfg = FileSink then False else isOpen t)\<rparr>))
                  \<lparr>isClosed := True, closing := CloseDone\<rparr>)
      | _ \<Rightarrow> None)"

fun run :: "'l sinkConfig \<Rightarrow> 'l transport \<Rightarrow> (world \<times> 'l event) list \<Rightarrow> 'l transport option" where
  "run cfg t [] = Some t"
| "run cfg t (e # es) = (case step cfg t e of None \<Rightarrow> None | Some t' \<Rightarrow> run cfg t' es)"

text \<open>A \<open>FileTransport\<close> with \<open>batchSize: 1\<close> and no rotation, for entries that are numbers.\<close>

definition fileConfig :: "nat sinkConfig" where
  "fileConfig = \<lparr>kind = FileSink, useJobQueue = False, batchSize = 1, queueLimit = 20,
     hasContext = False, rotateOpts = None, formats = (\<lambda>batch. Some ''{}''),
     merges = Some, clones = (\<lambda>l. True), parses = (\<lambda>data. None)\<rparr>"

definition calm :: world where
  "calm = \<lparr>wnow = ''2025-07-21T14:00:00.000Z'', statSize = None, openFails = False\<rparr>"

text \<open>
  The log entries a transport has accepted and not yet counted as processed: those
  buffered, those of the jobs queued or started, the console writes under way, and
  the batch that a pending rotation holds.
\<close>

definition handedOver :: "'l transport \<Rightarrow> nat" where
  "handedOver t =
     sum_list (queue (jobs t)) + sum_list (startedJobs t) + writing t
       + (case held t of None \<Rightarrow> 0 | Some (bodyLength, n) \<Rightarrow> n)"

definition pending :: "'l transport \<Rightarrow> nat" where
  "pending t = length (buffer t) + handedOver t"

text \<open>No queued job stands for zero entries, nor does the held batch.\<close>

definition noEmptyJob :: "'l transport \<Rightarrow> bool" where
  "noEmptyJob t =
     ((\<forall>n \<in> set (queue (jobs t)). 0 < n) \<and>
      (case held t of None \<Rightarrow> True | Some (bodyLength, n) \<Rightarrow> 0 < n))"

text \<open>
  What no \<open>flush\<close> touches: the two counters, where \<open>close()\<close> stands, and the absence
  of a report of \<open>assertStats\<close>; and no job it queues is empty.
\<close>

definition keeps :: "'l transport \<Rightarrow> 'l transport \<Rightarrow> bool" where
  "keeps t t' =
     (logRequests t' = logRequests t \<and> logProcessed t' = logProcessed t \<and>
      closing t' = closing t \<and>
      (StatsProblem \<in> set (reported t') \<longrightarrow> StatsProblem \<in> set (reported t)) \<and>
      (noEmptyJob t \<longrightarrow> noEmptyJob t'))"

text \<open>Nothing is counted twice, and no queued job is empty.\<close>

definition countsInv :: "'l transport \<Rightarrow> bool" where
  "countsInv t = (logProcessed t + pending t \<le> logRequests t \<and> noEmptyJob t)"

text \<open>What a running \<open>close()\<close> knows, while no \<open>log\<close> call interferes.\<close>

definition closeInv :: "'l transport \<Rightarrow> bool" where
  "closeInv t =
     (case closing t of
        NotCalled \<Rightarrow> StatsProblem \<notin> set (reported t)
      | AwaitingDrain snap \<Rightarrow> snap = logRequests t \<and> StatsProblem \<notin> set (reported t)
      | DrainDone snap \<Rightarrow> snap = logRequests t \<and> StatsProblem \<notin> set (reported t)
      | Sleeping snap \<Rightarrow> snap = logRequests t \<and> StatsProblem \<notin> set (reported t)
      | AwaitingDoClose \<Rightarrow> logRequests t \<le> logProcessed t \<and> StatsProblem \<notin> set (reported t)
      | CloseDone \<Rightarrow> True
      | CloseRejected \<Rightarrow> True)"

text \<open>
  The runs in which every \<open>log\<close> call comes before \<open>close()\<close> and in which neither
  \<open>ensureDir\<close> nor \<open>openStream\<close> throws during a \<open>log\<close> call; \<open>closeCalled\<close> says
  whether \<open>close()\<close> has been called before the run.
\<close>

fun logsThenClose :: "bool \<Rightarrow> (world \<times> 'l event) list \<Rightarrow> bool" where
  "logsThenClose closeCalled [] = True"
| "logsThenClose closeCalled ((w, Log l) # es) =
     (\<not> closeCalled \<and> \<not> openFails w \<and> logsThenClose closeCalled es)"
| "logsThenClose closeCalled ((w, Close) # es) = logsThenClose True es"
| "logsThenClose closeCalled ((w, e) # es) = logsThenClose closeCalled es"

section \<open>Proofs: withRetry\<close>

lemma retryLoop_skip:
  assumes "\<forall>k. a \<le> k \<and> k < b \<longrightarrow>
             (\<exists>e. operation (nat k) = Threw e \<and> retried onError codes k e)"
    and "1 \<le> a" and "a \<le> b" and "b \<le> maxR + 1"
    and "a = 1 \<longrightarrow> last0 = None"
    and "1 < a \<longrightarrow> (\<exists>e. operation (nat (a - 1)) = Threw e \<and> last0 = Some e)"
  shows "\<exists>l. retryLoop operation maxR onError codes a last0 (nat (a - 1)) =
              retryLoop operation maxR onError codes b l (nat (b - 1)) \<and>
             (b = 1 \<longrightarrow> l = None) \<and>
             (1 < b \<longrightarrow> (\<exists>e. operation (nat (b - 1)) = Threw e \<and> l = Some e))"
  using assms
proof (induction "nat (b - a)" arbitrary: a last0)
  case 0
  then have "a = b" by simp
  with 0 show ?case by auto
next
  case (Suc n)
  then have lt: "a < b" by simp
  with Suc.prems obtain e where e: "operation (nat a) = Threw e" "retried onError codes a e"
    by blast
  have sa: "Suc (nat (a - 1)) = nat a" using Suc.prems by simp
  have le: "a \<le> maxR" using lt Suc.prems by simp
  have step: "retryLoop operation maxR onError codes a last0 (nat (a - 1)) =
        retryLoop operation maxR onError codes (a + 1) (Some e) (nat a)"
    using e le sa
    by (subst retryLoop.simps) (auto simp: retried_def split: cbResult.splits)
  have n: "n = nat (b - (a + 1))" using Suc.hyps by simp
  have "\<exists>l. retryLoop operation maxR onError codes (a + 1) (Some e) (nat ((a + 1) - 1)) =
              retryLoop operation maxR onError codes b l (nat (b - 1)) \<and>
             (b = 1 \<longrightarrow> l = None) \<and>
             (1 < b \<longrightarrow> (\<exists>e. operation (nat (b - 1)) = Threw e \<and> l = Some e))"
  proof (rule Suc.hyps(1)[OF n])
    show "\<forall>k. a + 1 \<le> k \<and> k < b \<longrightarrow>
             (\<exists>e. operation (nat k) = Threw e \<and> retried onError codes k e)"
      using Suc.prems(1) by auto
    show "1 \<le> a + 1" using Suc.prems by simp
    show "a + 1 \<le> b" using lt by simp
    show "b \<le> maxR + 1" using Suc.prems by simp
    show "a + 1 = 1 \<longrightarrow> Some e = None" using Suc.prems by simp
    show "1 < a + 1 \<longrightarrow> (\<exists>e'. operation (nat (a + 1 - 1)) = Threw e' \<and> Some e = Some e')"
      using e by simp
  qed
  then show ?case using step by simp
qed

lemma retryLoop_exhausted:
  "maxR < attempt \<Longrightarrow>
     retryLoop operation maxR onError codes attempt l calls = (OperationFailed maxR l, calls)"
  by (subst retryLoop.simps) simp

lemma effectiveMaxRetry_withMaxRetry:
  "effectiveMaxRetry (withMaxRetry m) = (if m < 1 then 1 else m)"
  by (simp add: effectiveMaxRetry_def withMaxRetry_def)

lemma failsThenSucceeds_prefix:
  assumes "\<forall>k. 1 \<le> k \<and> k \<le> n \<longrightarrow> retried onError codes (int k) (errs k)"
    and "b \<le> int n + 1"
  shows "\<forall>k. 1 \<le> k \<and> k < b \<longrightarrow>
           (\<exists>e. failsThenSucceeds n errs v (nat k) = Threw e \<and> retried onError codes k e)"
proof (intro allI impI)
  fix k :: int
  assume k: "1 \<le> k \<and> k < b"
  then have "1 \<le> nat k \<and> nat k \<le> n" using assms(2) by auto
  with assms(1) have "retried onError codes (int (nat k)) (errs (nat k))" by blast
  moreover have "int (nat k) = k" using k by simp
  moreover have "failsThenSucceeds n errs v (nat k) = Threw (errs (nat k))"
    using \<open>1 \<le> nat k \<and> nat k \<le> n\<close> by (simp add: failsThenSucceeds_def)
  ultimately show "\<exists>e. failsThenSucceeds n errs v (nat k) = Threw e \<and> retried onError codes k e"
    by simp
qed

lemma withRetry_succeeds_after:
  assumes r: "\<forall>k. 1 \<le> k \<and> k \<le> n \<longrightarrow> retried onError codes (int k) (errs k)"
    and m: "int n < m"
  shows "withRetry (failsThenSucceeds n errs v) (withMaxRetry m) onError codes
           = (Resolved v, n + 1)"
proof -
  let ?op = "failsThenSucceeds n errs v"
  have eff: "effectiveMaxRetry (withMaxRetry m) = m"
    using m by (simp add: effectiveMaxRetry_withMaxRetry)
  have "\<exists>l. retryLoop ?op m onError codes 1 None (nat (1 - 1)) =
              retryLoop ?op m onError codes (int n + 1) l (nat ((int n + 1) - 1)) \<and>
             (int n + 1 = 1 \<longrightarrow> l = None) \<and>
             (1 < int n + 1 \<longrightarrow> (\<exists>e. ?op (nat ((int n + 1) - 1)) = Threw e \<and> l = Some e))"
    by (rule retryLoop_skip) (use failsThenSucceeds_prefix[OF r, of "int n + 1" v] m in auto)
  then obtain l where
    "retryLoop ?op m onError codes 1 None 0 = retryLoop ?op m onError codes (int n + 1) l n"
    by auto
  moreover have "retryLoop ?op m onError codes (int n + 1) l n = (Resolved v, Suc n)"
    using m by (subst retryLoop.simps) (simp add: failsThenSucceeds_def)
  ultimately show ?thesis by (simp add: withRetry_def eff)
qed

lemma withRetry_gives_up_after:
  assumes r: "\<forall>k. 1 \<le> k \<and> k \<le> n \<longrightarrow> retried onError codes (int k) (errs k)"
    and m: "1 \<le> m" "m \<le> int n"
  shows "withRetry (failsThenSucceeds n errs v) (withMaxRetry m) onError codes
           = (OperationFailed m (Some (errs (nat m))), nat m)"
proof -
  let ?op = "failsThenSucceeds n errs v"
  have eff: "effectiveMaxRetry (withMaxRetry m) = m"
    using m by (simp add: effectiveMaxRetry_withMaxRetry)
  have "\<exists>l. retryLoop ?op m onError codes 1 None (nat (1 - 1)) =
              retryLoop ?op m onError codes (m + 1) l (nat ((m + 1) - 1)) \<and>
             (m + 1 = 1 \<longrightarrow> l = None) \<and>
             (1 < m + 1 \<longrightarrow> (\<exists>e. ?op (nat ((m + 1) - 1)) = Threw e \<and> l = Some e))"
    by (rule retryLoop_skip) (use failsThenSucceeds_prefix[OF r, of "m + 1" v] m in auto)
  then obtain l e where l:
    "retryLoop ?op m onError codes 1 None 0 = retryLoop ?op m onError codes (m + 1) l (nat m)"
    "?op (nat m) = Threw e" "l = Some e"
    using m by auto
  have "e = errs (nat m)" using l(2) m by (simp add: failsThenSucceeds_def split: if_splits)
  moreover have "retryLoop ?op m onError codes (m + 1) l (nat m) = (OperationFailed m l, nat m)"
    by (rule retryLoop_exhausted) simp
  ultimately show ?thesis using l by (simp add: withRetry_def eff)
qed

lemma withRetry_coerces_maxRetry:
  "m < 1 \<Longrightarrow> withRetry operation (withMaxRetry m) onError codes
              = withRetry operation (withMaxRetry 1) onError codes"
  by (simp add: withRetry_def effectiveMaxRetry_withMaxRetry)

text \<open>
  Claim C4, as amended. An operation that throws exactly \<open>n\<close> times, each time with an
  error the loop retries (no abort error, no veto of the allow-list, no \<open>STOP\<close> and no
  exception from the callback), and then resolves: with \<open>maxRetry > n\<close> it is invoked
  \<open>n + 1\<close> times and \<open>withRetry\<close> resolves with its result; with \<open>1 \<le> maxRetry \<le> n\<close>
  it is invoked \<open>maxRetry\<close> times and \<open>withRetry\<close> rejects with the new error whose
  cause is the last error thrown; and a \<open>maxRetry\<close> below 1 behaves as \<open>maxRetry = 1\<close>.
\<close>

theorem withRetry_attempt_count:
  assumes "\<forall>k. 1 \<le> k \<and> k \<le> n \<longrightarrow> retried onError codes (int k) (errs k)"
  shows "(int n < m \<longrightarrow>
            withRetry (failsThenSucceeds n errs v) (withMaxRetry m) onError codes
              = (Resolved v, n + 1)) \<and>
         (1 \<le> m \<and> m \<le> int n \<longrightarrow>
            withRetry (failsThenSucceeds n errs v) (withMaxRetry m) onError codes
              = (OperationFailed m (Some (errs (nat m))), nat m)) \<and>
         (m < 1 \<longrightarrow>
            withRetry (failsThenSucceeds n errs v) (withMaxRetry m) onError codes
              = withRetry (failsThenSucceeds n errs v) (withMaxRetry 1) onError codes)"
proof (intro conjI impI)
  assume "int n < m"
  then show "withRetry (failsThenSucceeds n errs v) (withMaxRetry m) onError codes
               = (Resolved v, n + 1)"
    by (rule withRetry_succeeds_after[OF assms])
next
  assume "1 \<le> m \<and> m \<le> int n"
  then show "withRetry (failsThenSucceeds n errs v) (withMaxRetry m) onError codes
               = (OperationFailed m (Some (errs (nat m))), nat m)"
    using withRetry_gives_up_after[OF assms, of m v] by simp
next
  assume "m < 1"
  then show "withRetry (failsThenSucceeds n errs v) (withMaxRetry m) onError codes
               = withRetry (failsThenSucceeds n errs v) (withMaxRetry 1) onError codes"
    by (rule withRetry_coerces_maxRetry)
qed

text \<open>The scenario of the test suite: two failures, then \<open>ok\<close>, with \<open>maxRetry = 5\<close>;
  and the same operation with \<open>maxRetry = 2\<close> and \<open>maxRetry = 0\<close>.\<close>

theorem withRetry_attempt_count_witness:
  "withRetry (failsThenSucceeds 2 (\<lambda>k. \<lparr>ename = Some ''Error'', ecode = None\<rparr>) ''ok'')
       (withMaxRetry 5) None None = (Resolved ''ok'', 3) \<and>
   withRetry (failsThenSucceeds 2 (\<lambda>k. \<lparr>ename = Some ''Error'', ecode = None\<rparr>) ''ok'')
       (withMaxRetry 2) None None
     = (OperationFailed 2 (Some \<lparr>ename = Some ''Error'', ecode = None\<rparr>), 2) \<and>
   withRetry (failsThenSucceeds 2 (\<lambda>k. \<lparr>ename = Some ''Error'', ecode = None\<rparr>) ''ok'')
       (withMaxRetry 0) None None
     = withRetry (failsThenSucceeds 2 (\<lambda>k. \<lparr>ename = Some ''Error'', ecode = None\<rparr>) ''ok'')
       (withMaxRetry 1) None None"
proof -
  let ?errs = "\<lambda>k::nat. \<lparr>ename = Some ''Error'', ecode = None\<rparr>"
  have h: "\<forall>k. 1 \<le> k \<and> k \<le> (2::nat) \<longrightarrow> retried None None (int k) (?errs k)"
    by (simp add: retried_def isAbortError_def breaksOnCode_def callOnError_def)
  show ?thesis
    using withRetry_attempt_count[OF h, of 5 "''ok''"]
      withRetry_attempt_count[OF h, of 2 "''ok''"]
      withRetry_attempt_count[OF h, of 0 "''ok''"]
    by simp
qed

text \<open>
  The claim as stated fails for an operation whose failure is an abort error: it is
  rethrown at once. The operation below fails once and would then succeed;
  with \<open>maxRetry = 5\<close> it is invoked once, not twice, and \<open>withRetry\<close> rejects.
\<close>

theorem withRetry_attempt_count_counterexample:
  "withRetry (failsThenSucceeds 1 (\<lambda>k. \<lparr>ename = Some ''AbortError'', ecode = None\<rparr>) ''ok'')
       (withMaxRetry 5) None None
     = (Rethrown \<lparr>ename = Some ''AbortError'', ecode = None\<rparr>, 1) \<and>
   withRetry (failsThenSucceeds 1 (\<lambda>k. \<lparr>ename = Some ''AbortError'', ecode = None\<rparr>) ''ok'')
       (withMaxRetry 5) None None \<noteq> (Resolved ''ok'', 2)"
  by (simp add: withRetry_def effectiveMaxRetry_withMaxRetry failsThenSucceeds_def
      isAbortError_def retryLoop.simps)

text \<open>
  Claim C8, as amended. With a non-empty allow-list \<open>cs\<close>: when attempts
  \<open>1, ..., k - 1\<close> failed and were retried, and attempt \<open>k\<close> (within the budget) throws an
  error that has no code or whose code is not in \<open>cs\<close>, then the operation is invoked
  exactly \<open>k\<close> times and \<open>withRetry\<close> rejects: with the error itself when it is an abort
  error, else with the new error whose cause it is.
\<close>

theorem withRetry_allow_list_stops:
  assumes "cs \<noteq> []"
    and "\<forall>j. 1 \<le> j \<and> j < k \<longrightarrow>
           (\<exists>e'. operation (nat j) = Threw e' \<and> retried onError (Some cs) j e')"
    and "1 \<le> k" and "k \<le> effectiveMaxRetry opt"
    and "operation (nat k) = Threw e"
    and "ecode e = None \<or> (\<exists>c. ecode e = Some c \<and> c \<notin> set cs)"
  shows "withRetry operation opt onError (Some cs) =
           (if isAbortError e then Rethrown e else OperationFailed k (Some e), nat k)"
proof -
  let ?M = "effectiveMaxRetry opt"
  have "\<exists>l. retryLoop operation ?M onError (Some cs) 1 None (nat (1 - 1)) =
              retryLoop operation ?M onError (Some cs) k l (nat (k - 1)) \<and>
             (k = 1 \<longrightarrow> l = None) \<and>
             (1 < k \<longrightarrow> (\<exists>e. operation (nat (k - 1)) = Threw e \<and> l = Some e))"
    by (rule retryLoop_skip) (use assms in auto)
  then obtain l where l:
    "retryLoop operation ?M onError (Some cs) 1 None 0 =
     retryLoop operation ?M onError (Some cs) k l (nat (k - 1))"
    by auto
  have sk: "Suc (nat (k - 1)) = nat k" using assms(3) by simp
  have br: "breaksOnCode (Some cs) e"
    using assms(1,6) by (auto simp: breaksOnCode_def)
  have "retryLoop operation ?M onError (Some cs) k l (nat (k - 1)) =
          (if isAbortError e then Rethrown e else OperationFailed k (Some e), nat k)"
    using assms(4,5) br sk by (subst retryLoop.simps) simp
  with l show ?thesis by (simp add: withRetry_def)
qed

text \<open>The scenario of the test suite: the error has code \<open>X\<close>, the allow-list is \<open>[Y]\<close>,
  \<open>maxRetry = 3\<close>: one invocation, then \<open>Operation failed after 1 attempts\<close>.\<close>

theorem withRetry_allow_list_stops_witness:
  "withRetry (\<lambda>k. Threw \<lparr>ename = Some ''Error'', ecode = Some ''X''\<rparr> :: unit settled)
       (withMaxRetry 3) None (Some [''Y''])
     = (OperationFailed 1 (Some \<lparr>ename = Some ''Error'', ecode = Some ''X''\<rparr>), 1)"
proof -
  let ?e = "\<lparr>ename = Some ''Error'', ecode = Some ''X''\<rparr>"
  let ?op = "\<lambda>k::nat. Threw ?e :: unit settled"
  have h1: "[''Y''] \<noteq> []" by simp
  have h2: "\<forall>j::int. 1 \<le> j \<and> j < 1 \<longrightarrow>
              (\<exists>e'. ?op (nat j) = Threw e' \<and> retried None (Some [''Y'']) j e')"
    by auto
  have h3: "(1::int) \<le> 1" by simp
  have h4: "1 \<le> effectiveMaxRetry (withMaxRetry 3)"
    by (simp add: effectiveMaxRetry_withMaxRetry)
  have h5: "?op (nat 1) = Threw ?e" by simp
  have h6: "ecode ?e = None \<or> (\<exists>c. ecode ?e = Some c \<and> c \<notin> set [''Y''])" by simp
  show ?thesis
    using withRetry_allow_list_stops[OF h1 h2 h3 h4 h5 h6] by (simp add: isAbortError_def)
qed

text \<open>
  The claim as stated fails for an allow-list that is supplied but empty: the guard
  \<open>retryErrorCodes.length > 0\<close> switches the filter off, and an error without a code is
  retried until the budget is used up (three invocations for \<open>maxRetry = 3\<close>).
\<close>

theorem withRetry_allow_list_stops_counterexample:
  "withRetry (\<lambda>k. Threw \<lparr>ename = Some ''Error'', ecode = None\<rparr> :: unit settled)
       (withMaxRetry 3) None (Some [])
     = (OperationFailed 3 (Some \<lparr>ename = Some ''Error'', ecode = None\<rparr>), 3)"
  by (simp add: withRetry_def effectiveMaxRetry_withMaxRetry isAbortError_def
      breaksOnCode_def callOnError_def retryLoop.simps)

section \<open>Proofs: FileRotator.retention\<close>













section \<open>Proofs: AsyncJobQueue\<close>

lemma schedule_props:
  "schedule q = (q', started) \<Longrightarrow>
     concurrency q' = concurrency q \<and> waiters q' = waiters q \<and>
     running q' = running q + int (length started) \<and>
     queue q = started @ queue q' \<and>
     (running q \<le> concurrency q \<longrightarrow> running q' \<le> concurrency q) \<and>
     (queue q' \<noteq> [] \<longrightarrow> concurrency q \<le> running q')"
proof (induction q arbitrary: q' started rule: schedule.induct)
  case (1 q)
  show ?case
  proof (cases "running q < concurrency q \<and> queue q \<noteq> []")
    case False
    with "1.prems" have "q' = q" "started = []"
      by (simp_all add: schedule.simps[of q])
    with False show ?thesis by auto
  next
    case True
    let ?q1 = "q\<lparr>queue := tl (queue q), running := running q + 1\<rparr>"
    obtain q2 st2 where s2: "schedule ?q1 = (q2, st2)" by (cases "schedule ?q1")
    from "1.prems" True s2 have eq: "q' = q2" "started = hd (queue q) # st2"
      by (simp_all add: schedule.simps[of q])
    note ih = "1.IH"[OF True s2, simplified]
    have hq: "queue q = hd (queue q) # tl (queue q)" using True by simp
    have c1: "concurrency q' = concurrency q" "waiters q' = waiters q" using ih eq by simp_all
    have c2: "running q' = running q + int (length started)" using ih eq by simp
    have c3: "queue q = started @ queue q'" using ih eq hq by simp
    have c4: "running q \<le> concurrency q \<longrightarrow> running q' \<le> concurrency q"
      using ih eq True by simp
    have c5: "queue q' \<noteq> [] \<longrightarrow> concurrency q \<le> running q'" using ih eq by auto
    from c1 c2 c3 c4 c5 show ?thesis by blast
  qed
qed

lemma queueInit_inv: "queueInv (queueInit c)"
  by (simp add: queueInv_def queueInit_def newAsyncJobQueue_def)

lemma queueStep_inv:
  assumes "queueInv s" and "queueStep s e = Some s'"
  shows "queueInv s'"
proof (cases e)
  case (Enqueue job)
  obtain q' st where sc: "schedule ((jq s)\<lparr>queue := queue (jq s) @ [job]\<rparr>) = (q', st)"
    by (cases "schedule ((jq s)\<lparr>queue := queue (jq s) @ [job]\<rparr>)")
  from assms(2) Enqueue sc have s': "s' = s\<lparr>jq := q', active := active s @ st,
      enqueued := enqueued s @ [job]\<rparr>"
    by (simp add: enqueue_def)
  note p = schedule_props[OF sc]
  have i1: "running (jq s) = int (length (active s))" and i2: "1 \<le> concurrency (jq s)"
    and i3: "running (jq s) \<le> concurrency (jq s)"
    and i5: "waiters (jq s) \<noteq> [] \<longrightarrow> active s \<noteq> []"
    and i6: "mset (enqueued s) = mset (settledJobs s) + mset (active s) + mset (queue (jq s))"
    using assms(1) by (simp_all add: queueInv_def)
  from p have "queue (jq s) @ [job] = st @ queue q'" by simp
  then have "mset (queue (jq s) @ [job]) = mset (st @ queue q')" by simp
  then have m: "add_mset job (mset (queue (jq s))) = mset st + mset (queue q')" by simp
  have f_run: "running q' = int (length (active s @ st))" using p i1 by simp
  have f_c: "1 \<le> concurrency q'" "running q' \<le> concurrency q'" using p i2 i3 by simp_all
  have f_q: "queue q' \<noteq> [] \<longrightarrow> running q' = concurrency q'" using p f_c by auto
  have f_w: "waiters q' \<noteq> [] \<longrightarrow> active s @ st \<noteq> []" using p i5 by simp
  have f_m: "mset (enqueued s @ [job]) = mset (settledJobs s) + mset (active s @ st)
               + mset (queue q')"
    using i6 m by (simp add: ac_simps)
  show ?thesis unfolding queueInv_def s' using f_run f_c f_q f_w f_m by simp
next
  case (Drain w)
  with assms show ?thesis
    by (auto simp: queueInv_def drain_def split: if_splits)
next
  case (Finally job)
  with assms(2) have mem: "job \<in> set (active s)" by (simp split: if_splits)
  let ?q0 = "(jq s)\<lparr>running := running (jq s) - 1\<rparr>"
  obtain q1 st where sc: "schedule ?q0 = (q1, st)" by (cases "schedule ?q0")
  note p = schedule_props[OF sc]
  have len: "length (remove1 job (active s)) = length (active s) - 1"
    using mem by (simp add: length_remove1)
  have pos: "0 < length (active s)" using mem by (cases "active s") auto
  have ms: "mset (active s) = add_mset job (mset (remove1 job (active s)))"
    using mem by simp
  have i1: "running (jq s) = int (length (active s))" and i2: "1 \<le> concurrency (jq s)"
    and i3: "running (jq s) \<le> concurrency (jq s)"
    and i6: "mset (enqueued s) = mset (settledJobs s) + mset (active s) + mset (queue (jq s))"
    using assms(1) by (simp_all add: queueInv_def)
  have il: "int (length (remove1 job (active s))) = int (length (active s)) - 1"
  proof -
    have "1 \<le> length (active s)" using mem by (cases "active s") auto
    then have "int (length (active s) - 1) = int (length (active s)) - 1"
      by (simp only: of_nat_diff)
    then show ?thesis by (simp only: len)
  qed
  have f_run: "running q1 = int (length (remove1 job (active s) @ st))"
    using p i1 il by simp
  have f_c: "1 \<le> concurrency q1" "running q1 \<le> concurrency q1"
    using p i2 i3 by simp_all
  have f_q: "queue q1 \<noteq> [] \<longrightarrow> running q1 = concurrency q1"
    using p f_c by auto
  have qq: "queue (jq s) = st @ queue q1" using p by simp
  have f_m: "mset (enqueued s) = mset (settledJobs s @ [job])
               + mset (remove1 job (active s) @ st) + mset (queue q1)"
    unfolding i6 ms qq by simp
  show ?thesis
  proof (cases "running q1 = 0 \<and> queue q1 = []")
    case True
    with assms(2) Finally mem sc have s': "s' = s\<lparr>jq := q1\<lparr>waiters := []\<rparr>,
        active := remove1 job (active s) @ st, settledJobs := settledJobs s @ [job],
        drained := drained s @ waiters q1\<rparr>"
      by (simp add: jobFinally_def)
    show ?thesis unfolding queueInv_def s' using f_run f_c f_q f_m by simp
  next
    case False
    with assms(2) Finally mem sc have s': "s' = s\<lparr>jq := q1,
        active := remove1 job (active s) @ st, settledJobs := settledJobs s @ [job],
        drained := drained s @ []\<rparr>"
      by (auto simp: jobFinally_def)
    have "running q1 \<noteq> 0" using False f_q f_c by auto
    then have f_w: "remove1 job (active s) @ st \<noteq> []" using f_run by auto
    show ?thesis unfolding queueInv_def s' using f_run f_c f_q f_m f_w by simp
  qed
qed

lemma queueRun_inv:
  "queueInv s \<Longrightarrow> queueRun s es = Some s' \<Longrightarrow> queueInv s'"
  by (induction es arbitrary: s) (auto split: option.splits dest: queueStep_inv)

lemma queueStep_concurrency:
  "queueStep s e = Some s' \<Longrightarrow> concurrency (jq s') = concurrency (jq s)"
proof (cases e)
  case (Enqueue job)
  assume a: "queueStep s e = Some s'"
  obtain q' st where sc: "schedule ((jq s)\<lparr>queue := queue (jq s) @ [job]\<rparr>) = (q', st)"
    by (cases "schedule ((jq s)\<lparr>queue := queue (jq s) @ [job]\<rparr>)")
  from a Enqueue sc schedule_props[OF sc] show ?thesis by (auto simp: enqueue_def)
next
  case (Drain w)
  assume "queueStep s e = Some s'"
  with Drain show ?thesis by (auto simp: drain_def split: if_splits)
next
  case (Finally job)
  assume a: "queueStep s e = Some s'"
  let ?q0 = "(jq s)\<lparr>running := running (jq s) - 1\<rparr>"
  obtain q1 st where sc: "schedule ?q0 = (q1, st)" by (cases "schedule ?q0")
  from a Finally sc schedule_props[OF sc] show ?thesis
    by (auto simp: jobFinally_def split: if_splits)
qed

lemma queueRun_concurrency:
  "queueRun s es = Some s' \<Longrightarrow> concurrency (jq s') = concurrency (jq s)"
  by (induction es arbitrary: s) (auto split: option.splits dest: queueStep_concurrency)

lemma queueStep_drained:
  assumes "queueInv s" and "queueStep s e = Some s'" and "drained s' \<noteq> drained s"
  shows "active s' = [] \<and> queue (jq s') = [] \<and> waiters (jq s') = [] \<and>
         drained s' = drained s @ waiters (jq s) @ (case e of Drain w \<Rightarrow> [w] | _ \<Rightarrow> [])"
proof (cases e)
  case (Enqueue job)
  obtain q' st where sc: "schedule ((jq s)\<lparr>queue := queue (jq s) @ [job]\<rparr>) = (q', st)"
    by (cases "schedule ((jq s)\<lparr>queue := queue (jq s) @ [job]\<rparr>)")
  from assms(2) Enqueue sc have "drained s' = drained s" by (auto simp: enqueue_def)
  with assms(3) show ?thesis by simp
next
  case (Drain w)
  with assms(2,3) have idle: "running (jq s) = 0" "queue (jq s) = []"
    and s': "s' = s\<lparr>drained := drained s @ [w]\<rparr>"
    by (auto simp: drain_def split: if_splits)
  from assms(1) idle have "active s = []" "waiters (jq s) = []"
    by (auto simp: queueInv_def)
  with idle s' Drain show ?thesis by simp
next
  case (Finally job)
  with assms(2) have mem: "job \<in> set (active s)" by (simp split: if_splits)
  let ?q0 = "(jq s)\<lparr>running := running (jq s) - 1\<rparr>"
  obtain q1 st where sc: "schedule ?q0 = (q1, st)" by (cases "schedule ?q0")
  note p = schedule_props[OF sc]
  have inv': "queueInv s'" by (rule queueStep_inv[OF assms(1,2)])
  show ?thesis
  proof (cases "running q1 = 0 \<and> queue q1 = []")
    case True
    with assms(2) Finally mem sc have s': "s' = s\<lparr>jq := q1\<lparr>waiters := []\<rparr>,
        active := remove1 job (active s) @ st, settledJobs := settledJobs s @ [job],
        drained := drained s @ waiters q1\<rparr>"
      by (simp add: jobFinally_def)
    have "running (jq s') = int (length (active s'))" using inv' by (simp add: queueInv_def)
    moreover have "running (jq s') = 0" using True by (simp add: s')
    ultimately have "active s' = []" by simp
    moreover have "queue (jq s') = []" "waiters (jq s') = []"
      "drained s' = drained s @ waiters (jq s)"
      using True p by (simp_all add: s')
    ultimately show ?thesis using Finally by simp
  next
    case False
    with assms(2) Finally mem sc have "drained s' = drained s"
      by (auto simp: jobFinally_def)
    with assms(3) show ?thesis by simp
  qed
qed

text \<open>
  Claim C6. In every run of a queue created with limit \<open>c\<close>: the number of jobs
  started and not finished never exceeds \<open>max 1 c\<close>; and a step that completes any
  \<open>drain()\<close> call leaves no job running and none queued, every job enqueued so far
  (by whomever, a running job included) has finished, and the step completes all
  the \<open>drain()\<close> calls that were pending, together with the one just made.
\<close>

theorem drain_after_all_settled:
  assumes "queueRun (queueInit c) es = Some s" and "queueStep s e = Some s'"
  shows "int (length (active s)) \<le> max 1 c \<and> int (length (active s')) \<le> max 1 c \<and>
         (drained s' \<noteq> drained s \<longrightarrow>
            active s' = [] \<and> queue (jq s') = [] \<and>
            mset (settledJobs s') = mset (enqueued s') \<and>
            waiters (jq s') = [] \<and>
            drained s' = drained s @ waiters (jq s) @ (case e of Drain w \<Rightarrow> [w] | _ \<Rightarrow> []))"
proof -
  have inv: "queueInv s" by (rule queueRun_inv[OF queueInit_inv assms(1)])
  have inv': "queueInv s'" by (rule queueStep_inv[OF inv assms(2)])
  have c: "concurrency (jq s) = max 1 c"
    using queueRun_concurrency[OF assms(1)] by (simp add: queueInit_def newAsyncJobQueue_def)
  have c': "concurrency (jq s') = max 1 c"
    using queueStep_concurrency[OF assms(2)] c by simp
  have a: "int (length (active s)) \<le> max 1 c" using inv c by (simp add: queueInv_def)
  have a': "int (length (active s')) \<le> max 1 c" using inv' c' by (simp add: queueInv_def)
  have d: "drained s' \<noteq> drained s \<longrightarrow>
            active s' = [] \<and> queue (jq s') = [] \<and>
            mset (settledJobs s') = mset (enqueued s') \<and>
            waiters (jq s') = [] \<and>
            drained s' = drained s @ waiters (jq s) @ (case e of Drain w \<Rightarrow> [w] | _ \<Rightarrow> [])"
  proof
    assume ne: "drained s' \<noteq> drained s"
    note q = queueStep_drained[OF inv assms(2) ne]
    moreover from inv' q have "mset (settledJobs s') = mset (enqueued s')"
      by (simp add: queueInv_def)
    ultimately show "active s' = [] \<and> queue (jq s') = [] \<and>
            mset (settledJobs s') = mset (enqueued s') \<and>
            waiters (jq s') = [] \<and>
            drained s' = drained s @ waiters (jq s) @ (case e of Drain w \<Rightarrow> [w] | _ \<Rightarrow> [])"
      by simp
  qed
  from a a' d show ?thesis by simp
qed

text \<open>
  A queue with limit 2: jobs 1 and 2 start at once, job 3 is enqueued while they run,
  \<open>drain()\<close> is called twice (callers 7 and 8) while work is left. Both calls
  complete in the step in which the last job, job 3, finishes.
\<close>

theorem drain_after_all_settled_witness:
  "queueRun (queueInit 2)
       [Enqueue (1::nat), Enqueue 2, Enqueue 3, Drain 7, Finally 1, Drain 8, Finally 2]
     = Some \<lparr>jq = \<lparr>concurrency = 2, queue = [], running = 1, waiters = [7, 8]\<rparr>,
         active = [3], enqueued = [1, 2, 3], settledJobs = [1, 2], drained = []\<rparr> \<and>
   queueStep \<lparr>jq = \<lparr>concurrency = 2, queue = [], running = 1, waiters = [7, 8]\<rparr>,
         active = [3::nat], enqueued = [1, 2, 3], settledJobs = [1, 2], drained = []\<rparr>
       (Finally 3)
     = Some \<lparr>jq = \<lparr>concurrency = 2, queue = [], running = 0, waiters = []\<rparr>,
         active = [], enqueued = [1, 2, 3], settledJobs = [1, 2, 3], drained = [7, 8]\<rparr> \<and>
   mset [1, 2, 3::nat] = mset [1, 2, 3]"
proof -
  let ?s = "\<lparr>jq = \<lparr>concurrency = 2, queue = [], running = 1, waiters = [7, 8]\<rparr>,
         active = [3::nat], enqueued = [1, 2, 3], settledJobs = [1, 2], drained = []\<rparr>"
  let ?s' = "\<lparr>jq = \<lparr>concurrency = 2, queue = [], running = 0, waiters = []\<rparr>,
         active = [], enqueued = [1, 2, 3::nat], settledJobs = [1, 2, 3], drained = [7, 8]\<rparr>"
  have h1: "queueRun (queueInit 2)
       [Enqueue (1::nat), Enqueue 2, Enqueue 3, Drain 7, Finally 1, Drain 8, Finally 2]
     = Some ?s"
    by code_simp
  have h2: "queueStep ?s (Finally 3) = Some ?s'"
    by code_simp
  show ?thesis
    using drain_after_all_settled[OF h1 h2] h1 h2 by simp
qed

section \<open>Proofs: the worker handshake\<close>

lemma listener_errorTagged: "errorTagged ev \<Longrightarrow> listener expectedReply ev = None"
  by (cases ev) (auto simp: errorTagged_def onMessage_def split: wireMsg.splits)

lemma handshake_skip:
  "\<forall>p \<in> set pre. errorTagged (snd p) \<Longrightarrow> \<forall>p \<in> set pre. fst p < ms \<Longrightarrow>
     handshake expectedReply ms (pre @ rest) =
       (if rest = [] then (HandshakeFailed (TimedOut ms), ms)
        else handshake expectedReply ms rest)"
  by (induction pre) (auto simp: listener_errorTagged)

lemma handshake_bounded: "snd (handshake expectedReply ms events) \<le> ms"
  by (induction events) (auto split: option.splits)

text \<open>
  Claim C7. Let error-tagged messages arrive before the timer fires. They leave the
  handshake waiting: with nothing else, it ends by the timeout; and the next event,
  arriving at a time \<open>t\<close> before the timer fires, decides at \<open>t\<close>: the expected reply
  completes the handshake, any other message that is not error-tagged fails it, and
  so do an error of the worker and its exit.
\<close>

theorem handshake_error_tagged_ignored:
  assumes "\<forall>p \<in> set pre. errorTagged (snd p) \<and> fst p < ms" and "t < ms"
  shows "handshake expectedReply ms pre = (HandshakeFailed (TimedOut ms), ms) \<and>
         (\<not> errorTagged (OnMessage (Text expectedReply)) \<longrightarrow>
            handshake expectedReply ms (pre @ (t, OnMessage (Text expectedReply)) # rest)
              = (HandshakeOk, t)) \<and>
         (\<not> errorTagged (OnMessage m) \<and> m \<noteq> Text expectedReply \<longrightarrow>
            handshake expectedReply ms (pre @ (t, OnMessage m) # rest)
              = (HandshakeFailed (Unexpected expectedReply m), t)) \<and>
         handshake expectedReply ms (pre @ (t, OnError err) # rest)
           = (HandshakeFailed (WorkerFailed err), t) \<and>
         handshake expectedReply ms (pre @ (t, OnExit code) # rest)
           = (HandshakeFailed (ExitedEarly code), t) \<and>
         (errorTagged ev \<longrightarrow>
            handshake expectedReply ms (pre @ (t, ev) # rest)
              = handshake expectedReply ms (pre @ rest))"
proof -
  have a: "\<forall>p \<in> set pre. errorTagged (snd p)" and b: "\<forall>p \<in> set pre. fst p < ms"
    using assms(1) by auto
  have skip: "\<And>r. handshake expectedReply ms (pre @ r) =
       (if r = [] then (HandshakeFailed (TimedOut ms), ms) else handshake expectedReply ms r)"
    by (rule handshake_skip[OF a b])
  have c1: "handshake expectedReply ms pre = (HandshakeFailed (TimedOut ms), ms)"
    using skip[of "[]"] by simp
  have c2: "\<not> errorTagged (OnMessage (Text expectedReply)) \<longrightarrow>
            handshake expectedReply ms (pre @ (t, OnMessage (Text expectedReply)) # rest)
              = (HandshakeOk, t)"
    using assms(2) by (simp add: skip errorTagged_def onMessage_def)
  have c3: "\<not> errorTagged (OnMessage m) \<and> m \<noteq> Text expectedReply \<longrightarrow>
            handshake expectedReply ms (pre @ (t, OnMessage m) # rest)
              = (HandshakeFailed (Unexpected expectedReply m), t)"
    using assms(2) by (cases m) (auto simp: skip errorTagged_def onMessage_def)
  have c4: "handshake expectedReply ms (pre @ (t, OnError err) # rest)
           = (HandshakeFailed (WorkerFailed err), t)"
    using assms(2) by (simp add: skip)
  have c5: "handshake expectedReply ms (pre @ (t, OnExit code) # rest)
           = (HandshakeFailed (ExitedEarly code), t)"
    using assms(2) by (simp add: skip)
  have c6: "errorTagged ev \<longrightarrow>
            handshake expectedReply ms (pre @ (t, ev) # rest)
              = handshake expectedReply ms (pre @ rest)"
    using assms(2) by (auto simp: skip listener_errorTagged)
  from c1 c2 c3 c4 c5 c6 show ?thesis by blast
qed

text \<open>A close handshake: an error notification at 5 ms, then \<open>closed\<close> at 9 ms; the
  same with an unexpected \<open>drained\<close> instead.\<close>

theorem handshake_error_tagged_ignored_witness:
  "handshake ''closed'' 60000 [(5, OnMessage (Text ''WORKER_ERROR:{}''))]
     = (HandshakeFailed (TimedOut 60000), 60000) \<and>
   handshake ''closed'' 60000
       ([(5, OnMessage (Text ''WORKER_ERROR:{}''))] @ (9, OnMessage (Text ''closed'')) # [])
     = (HandshakeOk, 9) \<and>
   handshake ''closed'' 60000
       ([(5, OnMessage (Text ''WORKER_ERROR:{}''))] @ (9, OnMessage (Text ''drained'')) # [])
     = (HandshakeFailed (Unexpected ''closed'' (Text ''drained'')), 9)"
proof -
  have h1: "\<forall>p \<in> set [(5::nat, OnMessage (Text ''WORKER_ERROR:{}''))].
              errorTagged (snd p) \<and> fst p < 60000"
    by (simp add: errorTagged_def startsWith_def WORKER_ERROR_def)
  have h2: "(9::nat) < 60000" by simp
  have n1: "\<not> errorTagged (OnMessage (Text ''closed''))"
    by (simp add: errorTagged_def startsWith_def WORKER_ERROR_def)
  have n2: "\<not> errorTagged (OnMessage (Text ''drained'')) \<and> Text ''drained'' \<noteq> Text ''closed''"
    by (simp add: errorTagged_def startsWith_def WORKER_ERROR_def)
  show ?thesis
    using handshake_error_tagged_ignored[OF h1 h2, of "''closed''" "[]" "Text ''drained''"] n1 n2
    by simp
qed

text \<open>
  Every handshake is known by the time \<open>worker.closeTimeout\<close> has passed (0 when the
  option is not set), whatever \<open>worker.readyTimeout\<close> is: also the one of
  \<open>runAsWorker\<close>.
\<close>

lemma workerHandshake_bounded:
  "snd (workerHandshake w hasWorker expectedReply events) \<le> handshakeTimeout w"
  by (simp add: workerHandshake_def handshake_bounded)

lemma runAsWorkerHandshake_ignores_readyTimeout:
  "runAsWorkerHandshake (Some \<lparr>closeTimeout = c, readyTimeout = r\<rparr>) events
     = runAsWorkerHandshake (Some \<lparr>closeTimeout = c, readyTimeout = r'\<rparr>) events"
  by (simp add: runAsWorkerHandshake_def workerHandshake_def handshakeTimeout_def)

text \<open>
  Claim C3 at its failing input: \<open>worker: { closeTimeout: 60000, readyTimeout: 100 }\<close>.
  A worker that answers \<open>ready\<close> after 500 ms is accepted, and one that never answers
  is given up only after 60000 ms: the ready handshake runs under \<open>closeTimeout\<close>.
\<close>

theorem runAsWorker_waits_closeTimeout:
  "runAsWorkerHandshake
       (mergeWorkerOptions (Given \<lparr>closeTimeoutGiven = Given 60000, readyTimeoutGiven = Given 100\<rparr>))
       [(500, OnMessage (Text ''ready''))] = (HandshakeOk, 500) \<and>
   runAsWorkerHandshake
       (mergeWorkerOptions (Given \<lparr>closeTimeoutGiven = Given 60000, readyTimeoutGiven = Given 100\<rparr>))
       [] = (HandshakeFailed (TimedOut 60000), 60000)"
  by (simp add: runAsWorkerHandshake_def workerHandshake_def handshakeTimeout_def
      mergeWorkerOptions_def mergedField_def onMessage_def startsWith_def WORKER_ERROR_def)

section \<open>Proofs: FileRotator.rotate\<close>


lemma finish_phase: "phase (finish s a res) = (if openSinkThrows a then Stuck else Idle)"
  by (simp add: finish_def)









lemma rotRun_append: "rotRun s (es @ es') = rotRun (rotRun s es) es'"
  by (induction es arbitrary: s) simp_all






section \<open>Proofs: Transport.log and Transport.raw\<close>









section \<open>Proofs: a run of a transport up to the end of close()\<close>

text \<open>
  Claim C1 at its failing input: a \<open>FileTransport\<close> with \<open>batchSize: 1\<close>. During the
  one call of \<open>log\<close> the directory cannot be made (\<open>ensureDir\<close> throws out of \<open>flush\<close>,
  after \<open>doLog\<close> has buffered the entry): the call is counted as processed. \<open>close()\<close>
  then flushes the buffered entry, whose write counts it a second time. When
  \<open>close()\<close> completes, \<open>logProcessed\<close> is 2, \<open>logRequests\<close> is 1, and \<open>assertStats\<close> has
  reported the problem.
\<close>

theorem close_after_failed_open:
  "run fileConfig (newTransport fileConfig '''')
     [(calm\<lparr>openFails := True\<rparr>, Log 7), (calm, Close), (calm, JobSettles 0 Delivered),
      (calm, DrainResumes), (calm, DoCloseSettles)]
   = Some \<lparr>isClosing = True, isClosed = True, logRequests = 1, logProcessed = 2,
       worker = False, posted = [], reported = [OpenFailed, StatsProblem],
       jobs = \<lparr>concurrency = 20, queue = [], running = 0, waiters = []\<rparr>,
       startedJobs = [], buffer = [], writing = 0, isOpen = False,
       currentSize = 2, flushRotating = False, isFlushing = False,
       held = None, rotationStarted = False, fileRotator = None,
       flushTimer = False, closing = CloseDone\<rparr> \<and>
   run fileConfig (newTransport fileConfig '''')
     [(calm, Log 7), (calm, Close), (calm, JobSettles 0 Delivered),
      (calm, DrainResumes), (calm, DoCloseSettles)]
   = Some \<lparr>isClosing = True, isClosed = True, logRequests = 1, logProcessed = 1,
       worker = False, posted = [], reported = [],
       jobs = \<lparr>concurrency = 20, queue = [], running = 0, waiters = []\<rparr>,
       startedJobs = [], buffer = [], writing = 0, isOpen = False,
       currentSize = 2, flushRotating = False, isFlushing = False,
       held = None, rotationStarted = False, fileRotator = None,
       flushTimer = False, closing = CloseDone\<rparr>"
  by code_simp

subsection \<open>Where the counters agree\<close>

text \<open>
  The double count above needs \<open>flush\<close> to throw out of \<open>doLog\<close>. The lemmas below follow
  the entries a transport has accepted through every event, and show that on all other
  runs \<open>close()\<close> completes with the two counters equal.
\<close>

lemma keeps_refl: "keeps t t"
  by (simp add: keeps_def)

lemma keeps_trans: "keeps t t1 \<Longrightarrow> keeps t1 t2 \<Longrightarrow> keeps t t2"
  by (simp add: keeps_def)

lemma enqueueJob_sum:
  "sum_list (queue (jobs (enqueueJob n t))) + sum_list (startedJobs (enqueueJob n t))
     = sum_list (queue (jobs t)) + sum_list (startedJobs t) + n \<and>
   set (queue (jobs (enqueueJob n t))) \<subseteq> set (queue (jobs t)) \<union> {n}"
proof -
  obtain q st where e: "enqueue n (jobs t) = (q, st)" by (cases "enqueue n (jobs t)")
  then have "schedule ((jobs t)\<lparr>queue := queue (jobs t) @ [n]\<rparr>) = (q, st)"
    by (simp add: enqueue_def)
  from schedule_props[OF this] have a: "queue (jobs t) @ [n] = st @ queue q" by simp
  then have "sum_list (queue (jobs t) @ [n]) = sum_list (st @ queue q)" by simp
  then have s: "sum_list (queue (jobs t)) + n = sum_list st + sum_list (queue q)" by simp
  have "set (queue q) \<subseteq> set (st @ queue q)" by auto
  with a have sub: "set (queue q) \<subseteq> set (queue (jobs t)) \<union> {n}" by (metis set_append list.set(1,2) Un_commute sup_bot.right_neutral insert_is_Un)
  show ?thesis using e s sub by (simp add: enqueueJob_def)
qed

lemma enqueueJob_keeps:
  "0 < n \<Longrightarrow> keeps t (enqueueJob n t) \<and> handedOver (enqueueJob n t) = handedOver t + n \<and>
     buffer (enqueueJob n t) = buffer t"
proof -
  assume n: "0 < n"
  note s = enqueueJob_sum[of n t]
  have f: "logRequests (enqueueJob n t) = logRequests t"
    "logProcessed (enqueueJob n t) = logProcessed t"
    "closing (enqueueJob n t) = closing t" "reported (enqueueJob n t) = reported t"
    "writing (enqueueJob n t) = writing t" "held (enqueueJob n t) = held t"
    "buffer (enqueueJob n t) = buffer t"
    by (simp_all add: enqueueJob_def split: prod.split)
  have p: "noEmptyJob t \<longrightarrow> noEmptyJob (enqueueJob n t)"
    using s n f(6) by (auto simp: noEmptyJob_def)
  show ?thesis using f p s by (simp add: keeps_def handedOver_def)
qed

lemma sendBody_keeps:
  "0 < n \<Longrightarrow> keeps t (sendBody b n t) \<and> handedOver (sendBody b n t) = handedOver t + n \<and>
     buffer (sendBody b n t) = buffer t"
  using enqueueJob_keeps[of n "t\<lparr>currentSize := currentSize t + b\<rparr>"]
  by (simp add: sendBody_def keeps_def handedOver_def noEmptyJob_def)


lemma flushLoop_keeps:
  "flushLoop cfg w buf t = Some t' \<Longrightarrow>
     keeps t t' \<and> pending t' \<le> handedOver t + length buf"
proof (induction cfg w buf t arbitrary: t' rule: flushLoop.induct)
  case (1 cfg w buf t)
  let ?bs = "batchSize cfg"
  let ?batch = "take ?bs buf"
  let ?rest = "drop ?bs buf"
  show ?case
  proof (cases "buf = []")
    case True
    with "1.prems" have "t' = t\<lparr>buffer := []\<rparr>" by (simp add: flushLoop.simps[of cfg w "[]"])
    then show ?thesis by (simp add: pending_def handedOver_def keeps_def noEmptyJob_def)
  next
    case ne: False
    show ?thesis
    proof (cases "?bs = 0")
      case True
      with ne "1.prems" show ?thesis by (simp add: flushLoop.simps[of cfg w buf])
    next
      case bs: False
      have len: "length ?batch + length ?rest = length buf" by simp
      have pos: "0 < length ?batch" using ne bs by (cases buf) auto
      show ?thesis
      proof (cases "formats cfg ?batch")
        case None
        let ?t1 = "handleError t FormatFailed"
        from ne bs None "1.prems" have r: "flushLoop cfg w ?rest ?t1 = Some t'"
          by (simp add: flushLoop.simps[of cfg w buf])
        from "1.IH"(1)[OF ne bs None r]
        have ih: "keeps ?t1 t'" "pending t' \<le> handedOver ?t1 + length ?rest" by simp_all
        have k: "keeps t ?t1" "handedOver ?t1 = handedOver t"
          by (simp_all add: keeps_def handleError_def handedOver_def noEmptyJob_def)
        show ?thesis using keeps_trans[OF k(1) ih(1)] ih(2) k(2) len by simp
      next
        case (Some body)
        show ?thesis
        proof (cases "if currentSize t \<noteq> 0 then fileRotator t else None")
          case None
          let ?t1 = "sendBody (length body) (length ?batch) t"
          from ne bs Some None "1.prems" have r: "flushLoop cfg w ?rest ?t1 = Some t'"
            by (simp add: flushLoop.simps[of cfg w buf])
          from "1.IH"(2)[OF ne bs Some None r]
          have ih: "keeps ?t1 t'" "pending t' \<le> handedOver ?t1 + length ?rest" by simp_all
          note k = sendBody_keeps[OF pos, of t "length body"]
          show ?thesis using keeps_trans[OF conjunct1[OF k] ih(1)] ih(2) k len by simp
        next
          case (Some r)
          note rot = this
          let ?sr = "shouldRotate r (wnow w) (currentSize t + length body)"
          let ?t0 = "t\<lparr>fileRotator := Some (fst ?sr)\<rparr>"
          have k0: "keeps t ?t0" "handedOver ?t0 = handedOver t"
            by (simp_all add: keeps_def handedOver_def noEmptyJob_def)
          show ?thesis
          proof (cases "snd ?sr")
            case True
            from ne bs \<open>formats cfg ?batch = Some body\<close> rot True "1.prems"
            have e: "t' = beginRotation (length body) (length ?batch)
                      (t\<lparr>buffer := ?rest, fileRotator := Some (fst ?sr)\<rparr>)"
              by (simp add: flushLoop.simps[of cfg w buf])
            have k: "keeps t t'"
              unfolding e using pos by (simp add: keeps_def beginRotation_def drain_def noEmptyJob_def)
            have "handedOver t' \<le> handedOver t + length ?batch" "buffer t' = ?rest"
              unfolding e
              by (simp_all add: beginRotation_def drain_def handedOver_def split: option.split)
            then have "pending t' \<le> handedOver t + length buf"
              using len by (simp add: pending_def)
            with k show ?thesis by simp
          next
            case False
            let ?t1 = "sendBody (length body) (length ?batch) ?t0"
            from ne bs \<open>formats cfg ?batch = Some body\<close> rot False "1.prems"
            have r: "flushLoop cfg w ?rest ?t1 = Some t'"
              by (simp add: flushLoop.simps[of cfg w buf])
            from "1.IH"(3)[OF ne bs \<open>formats cfg ?batch = Some body\<close> rot False r]
            have ih: "keeps ?t1 t'" "pending t' \<le> handedOver ?t1 + length ?rest" by simp_all
            note k = sendBody_keeps[OF pos, of ?t0 "length body"]
            show ?thesis
              using keeps_trans[OF k0(1) keeps_trans[OF conjunct1[OF k] ih(1)]] ih(2) k k0(2) len
              by simp
          qed
        qed
      qed
    qed
  qed
qed

lemma httpFlushLoop_keeps:
  "httpFlushLoop cfg buf t = Some t' \<Longrightarrow>
     keeps t t' \<and> pending t' \<le> handedOver t + length buf"
proof (induction cfg buf t arbitrary: t' rule: httpFlushLoop.induct)
  case (1 cfg buf t)
  let ?bs = "batchSize cfg"
  let ?batch = "take ?bs buf"
  let ?rest = "drop ?bs buf"
  show ?case
  proof (cases "buf = []")
    case True
    with "1.prems" have "t' = t\<lparr>buffer := []\<rparr>" by (simp add: httpFlushLoop.simps[of cfg "[]"])
    then show ?thesis by (simp add: pending_def handedOver_def keeps_def noEmptyJob_def)
  next
    case ne: False
    show ?thesis
    proof (cases "?bs = 0")
      case True
      with ne "1.prems" show ?thesis by (simp add: httpFlushLoop.simps[of cfg buf])
    next
      case bs: False
      have len: "length ?batch + length ?rest = length buf" by simp
      have pos: "0 < length ?batch" using ne bs by (cases buf) auto
      let ?t1 = "enqueueJob (length ?batch) t"
      from ne bs "1.prems" have r: "httpFlushLoop cfg ?rest ?t1 = Some t'"
        by (simp add: httpFlushLoop.simps[of cfg buf])
      from "1.IH"[OF ne bs r]
      have ih: "keeps ?t1 t'" "pending t' \<le> handedOver ?t1 + length ?rest" by simp_all
      note k = enqueueJob_keeps[OF pos, of t]
      show ?thesis using keeps_trans[OF conjunct1[OF k] ih(1)] ih(2) k len by simp
    qed
  qed
qed

lemma fileFlush_keeps:
  assumes "fileFlush cfg w t = Some (t', r)"
  shows "keeps t t' \<and> pending t' \<le> pending t \<and> (r \<noteq> None \<longrightarrow> openFails w)"
proof (cases "isFlushing t \<or> flushRotating t \<or> (\<not> isOpen t \<and> openFails w)")
  case True
  with assms show ?thesis
    by (auto simp: fileFlush_def keeps_def pending_def handedOver_def noEmptyJob_def split: if_splits)
next
  case False
  let ?t0 = "if isOpen t then t else openStream w t"
  have k0: "keeps t ?t0" "handedOver ?t0 = handedOver t" "buffer ?t0 = buffer t"
    by (simp_all add: keeps_def handedOver_def openStream_def noEmptyJob_def)
  from assms False obtain t1 where
    f: "flushLoop cfg w (buffer t) ?t0 = Some t1" and e: "t' = t1\<lparr>isFlushing := False\<rparr>" "r = None"
    by (auto simp: fileFlush_def split: option.splits if_splits)
  from flushLoop_keeps[OF f] have k1: "keeps ?t0 t1" "pending t1 \<le> handedOver ?t0 + length (buffer t)"
    by simp_all
  have k2: "keeps t1 t'" "pending t' = pending t1"
    unfolding e by (simp_all add: keeps_def pending_def handedOver_def noEmptyJob_def)
  show ?thesis
    using keeps_trans[OF k0(1) keeps_trans[OF k1(1) k2(1)]] k1(2) k2(2) k0(2) e(2)
    by (simp add: pending_def)
qed

lemma flush_keeps:
  assumes "flush cfg w t = Some (t', r)"
  shows "keeps t t' \<and> pending t' \<le> pending t \<and> (r \<noteq> None \<longrightarrow> openFails w)"
proof (cases "kind cfg")
  case ConsoleSink
  with assms show ?thesis by (simp add: flush_def keeps_def)
next
  case FileSink
  with assms show ?thesis using fileFlush_keeps[of cfg w t t' r] by (simp add: flush_def)
next
  case HttpSink
  with assms obtain f: "httpFlushLoop cfg (buffer t) t = Some t'" and "r = None"
    by (auto simp: flush_def)
  with httpFlushLoop_keeps[OF f] show ?thesis by (simp add: pending_def)
qed


lemma doLog_keeps:
  assumes "doLog cfg w l t = Some (t1, r)" and "\<not> openFails w"
  shows "keeps t t1 \<and>
         (case r of None \<Rightarrow> pending t1 \<le> pending t + 1
                  | Some err \<Rightarrow> pending t1 \<le> pending t \<and> err \<noteq> StatsProblem)"
proof (cases "kind cfg = ConsoleSink")
  case True
  show ?thesis
  proof (cases "formats cfg [l]")
    case None
    with True assms show ?thesis by (auto simp: doLog_def keeps_def)
  next
    case (Some line)
    show ?thesis
    proof (cases "useJobQueue cfg")
      case True
      with \<open>kind cfg = ConsoleSink\<close> Some assms have "t1 = enqueueJob 1 t" "r = None"
        by (auto simp: doLog_def)
      then show ?thesis using enqueueJob_keeps[of 1 t] by (simp add: pending_def)
    next
      case False
      with \<open>kind cfg = ConsoleSink\<close> Some assms have "t1 = t\<lparr>writing := writing t + 1\<rparr>" "r = None"
        by (auto simp: doLog_def)
      then show ?thesis by (simp add: keeps_def pending_def handedOver_def noEmptyJob_def)
    qed
  qed
next
  case False
  let ?tb = "t\<lparr>buffer := buffer t @ [l]\<rparr>"
  have kb: "keeps t ?tb" "pending ?tb = pending t + 1"
    by (simp_all add: keeps_def pending_def handedOver_def noEmptyJob_def)
  show ?thesis
  proof (cases "length (buffer t @ [l]) \<ge> batchSize cfg")
    case True
    with False assms have f: "flush cfg w ?tb = Some (t1, r)"
      by (cases "kind cfg") (simp_all add: doLog_def)
    from flush_keeps[OF f] assms(2) have "keeps ?tb t1" "pending t1 \<le> pending ?tb" "r = None"
      by auto
    then show ?thesis using keeps_trans[OF kb(1)] kb(2) by simp
  next
    case no: False
    with False assms have "t1 = ?tb" "r = None"
      by (cases "kind cfg"; simp add: doLog_def)+
    then show ?thesis using kb by simp
  qed
qed

lemma logTry_keeps:
  assumes "logTry cfg w l t = Some (t1, r)" and "\<not> openFails w"
  shows "keeps t t1 \<and>
         (case r of None \<Rightarrow> pending t1 \<le> pending t + 1
                  | Some err \<Rightarrow> pending t1 \<le> pending t \<and> err \<noteq> StatsProblem)"
proof (cases "checkTransportState t")
  case (Some err)
  with assms have "t1 = t" "r = Some err" "err \<noteq> StatsProblem"
    by (auto simp: logTry_def checkTransportState_def split: if_splits)
  then show ?thesis by (simp add: keeps_refl)
next
  case None
  show ?thesis
  proof (cases "worker t")
    case True
    with None assms have
      "(t1 = t\<lparr>posted := posted t @ [Entry l]\<rparr> \<and> r = None) \<or> (t1 = t \<and> r = Some PostFailed)"
      by (auto simp: logTry_def split: if_splits)
    then show ?thesis by (auto simp: keeps_def pending_def handedOver_def noEmptyJob_def)
  next
    case False
    show ?thesis
    proof (cases "if hasContext cfg then merges cfg l else Some l")
      case mn: None
      with None False assms have "t1 = t" "r = Some MergeFailed"
        by (auto simp: logTry_def)
      then show ?thesis by (simp add: keeps_refl)
    next
      case (Some l')
      with None False assms have "doLog cfg w l' t = Some (t1, r)"
        by (auto simp: logTry_def)
      from doLog_keeps[OF this assms(2)] show ?thesis .
    qed
  qed
qed

lemma log_counts:
  assumes "log cfg w l t = Some t'" and "\<not> openFails w" and "countsInv t"
  shows "countsInv t' \<and> closing t' = closing t \<and>
         (StatsProblem \<in> set (reported t') \<longrightarrow> StatsProblem \<in> set (reported t))"
proof -
  let ?t0 = "t\<lparr>logRequests := logRequests t + 1\<rparr>"
  have k0: "pending ?t0 = pending t" "noEmptyJob ?t0 = noEmptyJob t"
    by (simp_all add: pending_def handedOver_def noEmptyJob_def)
  from assms(1) obtain t1 r where lt: "logTry cfg w l ?t0 = Some (t1, r)"
    by (auto simp: log_def split: option.splits)
  note k = logTry_keeps[OF lt assms(2)]
  show ?thesis
  proof (cases r)
    case None
    with lt assms(1) have "t' = t1" by (simp add: log_def)
    with k None k0 assms(3) show ?thesis by (auto simp: keeps_def countsInv_def)
  next
    case (Some err)
    with lt assms(1) have e: "t' = handleError (t1\<lparr>logProcessed := logProcessed t1 + 1\<rparr>) err"
      by (simp add: log_def)
    have "pending t' = pending t1" "noEmptyJob t' = noEmptyJob t1"
      unfolding e by (simp_all add: handleError_def pending_def handedOver_def noEmptyJob_def)
    with k Some k0 assms(3) show ?thesis
      unfolding e by (auto simp: keeps_def countsInv_def handleError_def)
  qed
qed


lemma jobFinally_sum:
  assumes "jobFinally q = (q', st, resolved)"
  shows "sum_list (queue q) = sum_list st + sum_list (queue q') \<and> set (queue q') \<subseteq> set (queue q)"
proof -
  obtain q1 st1 where sc: "schedule (q\<lparr>running := running q - 1\<rparr>) = (q1, st1)"
    by (cases "schedule (q\<lparr>running := running q - 1\<rparr>)")
  from schedule_props[OF sc] have a: "queue q = st1 @ queue q1" by simp
  from assms sc have e: "st = st1" "queue q' = queue q1"
    by (auto simp: jobFinally_def split: if_splits)
  have "sum_list (queue q) = sum_list (st1 @ queue q1)" using a by simp
  moreover have "set (queue q1) \<subseteq> set (queue q)" using a by (metis set_append Un_upper2)
  ultimately show ?thesis using e by simp
qed

lemma sum_list_without:
  "i < length xs \<Longrightarrow> sum_list (take i xs @ drop (Suc i) xs) + xs ! i = sum_list (xs :: nat list)"
proof -
  assume "i < length xs"
  then have "xs = take i xs @ xs ! i # drop (Suc i) xs" by (rule id_take_nth_drop)
  then have "sum_list xs = sum_list (take i xs @ xs ! i # drop (Suc i) xs)" by simp
  then show ?thesis by simp
qed

lemma notify_frame:
  "logRequests (notify res t) = logRequests t \<and> logProcessed (notify res t) = logProcessed t \<and>
   reported (notify res t) = reported t \<and> pending (notify res t) = pending t \<and>
   noEmptyJob (notify res t) = noEmptyJob t \<and>
   (closing (notify res t) = closing t \<or>
    (\<exists>snap. closing t = AwaitingDrain snap \<and> closing (notify res t) = DrainDone snap))"
  by (cases "closing t")
    (simp_all add: notify_def Let_def pending_def handedOver_def noEmptyJob_def)

lemma closeInv_advance:
  assumes "closeInv t" and "logRequests t' = logRequests t"
    and "logProcessed t \<le> logProcessed t'"
    and "StatsProblem \<in> set (reported t') \<longrightarrow> StatsProblem \<in> set (reported t)"
    and "closing t' = closing t \<or>
         (\<exists>snap. closing t = AwaitingDrain snap \<and> closing t' = DrainDone snap)"
  shows "closeInv t'"
  using assms by (cases "closing t"; cases "closing t'") (auto simp: closeInv_def)

lemma jobSettles_counts:
  assumes "jobSettles cfg i oc t = Some t'" and "countsInv t"
  shows "countsInv t' \<and> logRequests t' = logRequests t \<and> logProcessed t \<le> logProcessed t' \<and>
         (StatsProblem \<in> set (reported t') \<longrightarrow> StatsProblem \<in> set (reported t)) \<and>
         (closing t' = closing t \<or>
          (\<exists>snap. closing t = AwaitingDrain snap \<and> closing t' = DrainDone snap))"
proof -
  from assms(1) have i: "i < length (startedJobs t)"
    by (simp add: jobSettles_def split: if_splits)
  let ?n = "startedJobs t ! i"
  let ?left = "take i (startedJobs t) @ drop (Suc i) (startedJobs t)"
  let ?k = "if oc = Abandoned then 0 else ?n"
  obtain q st res where jf: "jobFinally (jobs t) = (q, st, res)"
    by (cases "jobFinally (jobs t)") auto
  let ?rep = "if oc = Failed then reported t @ [DeliveryFailed] else reported t"
  let ?t3 = "t\<lparr>logProcessed := logProcessed t + ?k, reported := ?rep, jobs := q,
               startedJobs := ?left @ st\<rparr>"
  have e: "t' = notify res ?t3"
    using assms(1) i jf
    by (cases "oc = Failed") (auto simp: jobSettles_def Let_def handleError_def split: if_splits)
  note s = jobFinally_sum[OF jf]
  note w = sum_list_without[OF i]
  have ho: "handedOver ?t3 + ?n = handedOver t"
    using s w by (simp add: handedOver_def)
  have p: "pending ?t3 + ?n = pending t" using ho by (simp add: pending_def)
  have ne: "noEmptyJob t \<longrightarrow> noEmptyJob ?t3" using s by (auto simp: noEmptyJob_def)
  have c: "countsInv ?t3" using assms(2) p ne by (auto simp: countsInv_def)
  note nf = notify_frame[of res ?t3]
  have c': "countsInv t'" unfolding e using c nf by (simp add: countsInv_def)
  show ?thesis using c' nf unfolding e by (auto split: if_splits)
qed

lemma foldl_handleError:
  "foldl handleError t rs = t\<lparr>reported := reported t @ rs\<rparr>"
  by (induction rs arbitrary: t) (simp_all add: handleError_def)

lemma rotationSettles_counts:
  assumes "rotationSettles cfg w completed errs t = Some t'" and "countsInv t"
  shows "countsInv t' \<and> logRequests t' = logRequests t \<and> logProcessed t' = logProcessed t \<and>
         (StatsProblem \<in> set (reported t') \<longrightarrow> StatsProblem \<in> set (reported t)) \<and>
         closing t' = closing t"
proof -
  from assms(1) obtain b n where h: "held t = Some (b, n)" and rs: "rotationStarted t"
    by (auto simp: rotationSettles_def split: option.splits if_splits)
  let ?t1 = "foldl handleError (openStream w (t\<lparr>isOpen := False\<rparr>)) (replicate errs RotateFailed)"
  let ?t2 = "?t1\<lparr>fileRotator := map_option (\<lambda>r. if completed
                 then r\<lparr>currentKey := computeKey (opts r) (wnow w)\<rparr> else r) (fileRotator ?t1)\<rparr>"
  let ?t3 = "(sendBody b n ?t2)\<lparr>currentSize := 0, flushRotating := False,
                isFlushing := False, held := None, rotationStarted := False\<rparr>"
  from assms(1) h rs obtain r where f: "flush cfg w ?t3 = Some (t', r)"
    by (auto simp: rotationSettles_def Let_def)
  have n: "0 < n" using assms(2) h by (simp add: countsInv_def noEmptyJob_def)
  have k2: "keeps t ?t2" "handedOver ?t2 = handedOver t" "buffer ?t2 = buffer t"
    "held ?t2 = held t"
    by (simp_all add: foldl_handleError openStream_def keeps_def handedOver_def noEmptyJob_def)
  note sb = sendBody_keeps[OF n, of ?t2 b]
  have hs: "held (sendBody b n ?t2) = Some (b, n)"
    using h by (simp add: sendBody_def enqueueJob_def foldl_handleError openStream_def
        split: prod.split)
  have k3: "keeps (sendBody b n ?t2) ?t3"
    by (simp add: keeps_def noEmptyJob_def)
  have h3: "handedOver ?t3 + n = handedOver (sendBody b n ?t2)"
    using hs by (simp add: handedOver_def)
  have p3: "pending ?t3 = pending t"
    using h3 sb k2 by (simp add: pending_def)
  note fk = flush_keeps[OF f]
  have k: "keeps t t'"
    using keeps_trans[OF k2(1) keeps_trans[OF conjunct1[OF sb] keeps_trans[OF k3 conjunct1[OF fk]]]] .
  show ?thesis using k fk p3 assms(2) by (auto simp: keeps_def countsInv_def)
qed

lemma pollOnce_counts:
  assumes "pollOnce cfg w snap t = Some t'" and "countsInv t" and "snap = logRequests t"
    and "StatsProblem \<notin> set (reported t)"
  shows "countsInv t' \<and> closeInv t' \<and> closing t' \<noteq> NotCalled"
proof -
  from assms(1) obtain t1 r where f: "flush cfg w t = Some (t1, r)"
    by (auto simp: pollOnce_def split: option.splits)
  note fk = flush_keeps[OF f]
  have c1: "countsInv t1" using fk assms(2) by (auto simp: keeps_def countsInv_def)
  show ?thesis
  proof (cases r)
    case (Some err)
    with f assms(1) have e: "t' = t1\<lparr>closing := CloseRejected\<rparr>" by (simp add: pollOnce_def)
    show ?thesis unfolding e using c1
      by (simp add: countsInv_def closeInv_def pending_def handedOver_def noEmptyJob_def)
  next
    case None
    obtain q now where d: "drain CLOSE_WAITER (jobs t1) = (q, now)"
      by (cases "drain CLOSE_WAITER (jobs t1)")
    then have qq: "queue q = queue (jobs t1)" by (auto simp: drain_def split: if_splits)
    from None f assms(1) d have
      e: "t' = t1\<lparr>jobs := q, closing := (if now then DrainDone snap else AwaitingDrain snap)\<rparr>"
      by (simp add: pollOnce_def)
    have "countsInv t'" unfolding e using c1 qq
      by (simp add: countsInv_def pending_def handedOver_def noEmptyJob_def)
    moreover have "closeInv t'" unfolding e using fk assms(3,4)
      by (auto simp: closeInv_def keeps_def)
    moreover have "closing t' \<noteq> NotCalled" unfolding e by simp
    ultimately show ?thesis by simp
  qed
qed

lemma logsThenClose_tail:
  "logsThenClose c ((w, e) # es) \<Longrightarrow> logsThenClose (c \<or> e = Close) es"
  by (cases e) auto

lemma step_counts:
  assumes ci: "countsInv t" and cl: "closeInv t" and nc: "closing t \<noteq> NotCalled \<longrightarrow> c"
    and adm: "logsThenClose c ((w, e) # es)" and st: "step cfg t (w, e) = Some t'"
  shows "countsInv t' \<and> closeInv t' \<and> (closing t' \<noteq> NotCalled \<longrightarrow> c \<or> e = Close)"
proof (cases e)
  case (Log l)
  with adm have a: "\<not> c" "\<not> openFails w" by simp_all
  with nc have n: "closing t = NotCalled" by auto
  from st Log have "log cfg w l t = Some t'" by simp
  from log_counts[OF this a(2) ci] n cl show ?thesis by (simp add: closeInv_def)
next
  case Tick
  show ?thesis
  proof (cases "flushTimer t \<and> \<not> worker t")
    case True
    with st Tick obtain r where f: "flush cfg w t = Some (t', r)" by auto
    note fk = flush_keeps[OF f]
    have "countsInv t'" using fk ci by (auto simp: keeps_def countsInv_def)
    moreover have "closeInv t'"
      using closeInv_advance[OF cl, of t'] fk by (simp add: keeps_def)
    moreover have "closing t' = closing t" using fk by (simp add: keeps_def)
    ultimately show ?thesis using nc by simp
  next
    case False
    with st Tick have "t' = t" by auto
    with ci cl nc show ?thesis by simp
  qed
next
  case (JobSettles i oc)
  with st have "jobSettles cfg i oc t = Some t'" by simp
  note j = jobSettles_counts[OF this ci]
  have "closeInv t'" using closeInv_advance[OF cl, of t'] j by simp
  moreover have "closing t' \<noteq> NotCalled \<longrightarrow> closing t \<noteq> NotCalled" using j by auto
  ultimately show ?thesis using j nc by simp
next
  case (WriteSettles ok)
  let ?t1 = "t\<lparr>writing := writing t - 1, logProcessed := logProcessed t + 1\<rparr>"
  from WriteSettles st have wr: "0 < writing t"
    and e: "t' = (if ok then ?t1 else handleError ?t1 DeliveryFailed)"
    by (auto simp: Let_def split: if_splits)
  have f: "logRequests t' = logRequests t" "logProcessed t' = logProcessed t + 1"
    "closing t' = closing t" "pending t' + 1 = pending t" "noEmptyJob t' = noEmptyJob t"
    "StatsProblem \<in> set (reported t') \<longrightarrow> StatsProblem \<in> set (reported t)"
    unfolding e using wr
    by (simp_all add: Let_def handleError_def pending_def handedOver_def noEmptyJob_def)
  have "countsInv t'" using ci f by (simp add: countsInv_def)
  moreover have "closeInv t'" using closeInv_advance[OF cl, of t'] f by simp
  ultimately show ?thesis using nc f by simp
next
  case (RotationSettles completed errs)
  with st have "rotationSettles cfg w completed errs t = Some t'" by simp
  note r = rotationSettles_counts[OF this ci]
  have "closeInv t'" using closeInv_advance[OF cl, of t'] r by simp
  with r nc show ?thesis by simp
next
  case Close
  with st have n: "closing t = NotCalled"
    and p: "pollOnce cfg w (logRequests t) (t\<lparr>isClosing := True\<rparr>) = Some t'"
    by (auto split: if_splits)
  let ?t0 = "t\<lparr>isClosing := True\<rparr>"
  have c0: "countsInv ?t0" using ci
    by (simp add: countsInv_def pending_def handedOver_def noEmptyJob_def)
  have s0: "StatsProblem \<notin> set (reported ?t0)" using cl n by (simp add: closeInv_def)
  from pollOnce_counts[OF p c0 _ s0] Close show ?thesis by simp
next
  case DrainResumes
  with st obtain snap where d: "closing t = DrainDone snap"
    by (cases "closing t") auto
  with cl have sn: "snap = logRequests t" "StatsProblem \<notin> set (reported t)"
    by (simp_all add: closeInv_def)
  from d nc have c by simp
  show ?thesis
  proof (cases "logProcessed t \<ge> snap")
    case True
    with st DrainResumes d have e: "t' = t\<lparr>flushTimer := False, closing := AwaitingDoClose\<rparr>"
      by simp
    show ?thesis unfolding e using ci sn True \<open>c\<close>
      by (simp add: countsInv_def closeInv_def pending_def handedOver_def noEmptyJob_def)
  next
    case False
    with st DrainResumes d have e: "t' = t\<lparr>closing := Sleeping snap\<rparr>" by simp
    show ?thesis unfolding e using ci sn \<open>c\<close>
      by (simp add: countsInv_def closeInv_def pending_def handedOver_def noEmptyJob_def)
  qed
next
  case PollWakes
  with st obtain snap where d: "closing t = Sleeping snap"
    and p: "pollOnce cfg w snap t = Some t'"
    by (cases "closing t") auto
  with cl have sn: "snap = logRequests t" "StatsProblem \<notin> set (reported t)"
    by (simp_all add: closeInv_def)
  from d nc have c by simp
  from pollOnce_counts[OF p ci sn] \<open>c\<close> show ?thesis by simp
next
  case DoCloseSettles
  with st have d: "closing t = AwaitingDoClose"
    and e: "t' = (assertStats (t\<lparr>isOpen := (if kind cfg = FileSink then False else isOpen t)\<rparr>))
                  \<lparr>isClosed := True, closing := CloseDone\<rparr>"
    by (cases "closing t"; simp)+
  from d nc have c by simp
  have "countsInv t'" unfolding e using ci
    by (simp add: assertStats_def handleError_def countsInv_def pending_def handedOver_def
        noEmptyJob_def)
  moreover have "closeInv t'" unfolding e by (simp add: closeInv_def)
  ultimately show ?thesis using \<open>c\<close> by simp
qed

lemma run_counts:
  assumes "run cfg t evs = Some t'" and "logsThenClose c evs"
    and "countsInv t" and "closeInv t" and "closing t \<noteq> NotCalled \<longrightarrow> c"
  shows "countsInv t' \<and> closeInv t'"
  using assms
proof (induction evs arbitrary: t c)
  case Nil
  then show ?case by simp
next
  case (Cons a es)
  obtain w e where a: "a = (w, e)" by (cases a)
  from Cons.prems(1) obtain t1 where s: "step cfg t (w, e) = Some t1"
    and r: "run cfg t1 es = Some t'"
    unfolding a by (auto split: option.splits)
  from Cons.prems(2) have adm: "logsThenClose c ((w, e) # es)" unfolding a .
  note sc = step_counts[OF Cons.prems(3,4,5) adm s]
  from Cons.IH[OF r logsThenClose_tail[OF adm]] sc show ?case by simp
qed

lemma run_append:
  "run cfg t (xs @ ys) = (case run cfg t xs of None \<Rightarrow> None | Some t1 \<Rightarrow> run cfg t1 ys)"
  by (induction xs arbitrary: t) (simp_all split: option.splits)

lemma newTransport_counts:
  "countsInv (newTransport cfg now) \<and> closeInv (newTransport cfg now) \<and>
   closing (newTransport cfg now) = NotCalled"
  by (simp add: newTransport_def newAsyncJobQueue_def countsInv_def closeInv_def pending_def
      handedOver_def noEmptyJob_def)

text \<open>
  Where the counters do agree. On a transport without a worker, let any number of
  \<open>log\<close> calls, timer flushes, job and write completions and rotations happen, with
  every \<open>log\<close> call before \<open>close()\<close> and none during which \<open>ensureDir\<close> or
  \<open>openStream\<close> throws. If \<open>close()\<close> completes, then at that moment \<open>logProcessed\<close>
  equals \<open>logRequests\<close>, the queue is empty, and \<open>assertStats\<close> has reported nothing.
\<close>

theorem close_counts_agree:
  assumes "logsThenClose False evs"
    and "run cfg (newTransport cfg now) (evs @ [(w, DoCloseSettles)]) = Some t"
  shows "logProcessed t = logRequests t \<and> \<not> statsProblem t \<and>
         StatsProblem \<notin> set (reported t) \<and> closing t = CloseDone"
proof -
  from assms(2) obtain t1 where r: "run cfg (newTransport cfg now) evs = Some t1"
    and s: "step cfg t1 (w, DoCloseSettles) = Some t"
    by (auto simp: run_append split: option.splits)
  note n = newTransport_counts[of cfg now]
  from run_counts[OF r assms(1)] n have ci: "countsInv t1" and cl: "closeInv t1" by simp_all
  from s have d: "closing t1 = AwaitingDoClose" by (cases "closing t1") simp_all
  with cl have le: "logRequests t1 \<le> logProcessed t1"
    and sp: "StatsProblem \<notin> set (reported t1)" by (simp_all add: closeInv_def)
  from ci le have eq: "logProcessed t1 = logRequests t1" and p0: "pending t1 = 0"
    and ne: "noEmptyJob t1" by (simp_all add: countsInv_def)
  from p0 have "sum_list (queue (jobs t1)) = 0" by (simp add: pending_def handedOver_def)
  with ne have q0: "queue (jobs t1) = []"
    by (cases "queue (jobs t1)") (auto simp: noEmptyJob_def)
  let ?t2 = "t1\<lparr>isOpen := (if kind cfg = FileSink then False else isOpen t1)\<rparr>"
  have ok: "\<not> statsProblem ?t2" using eq q0 by (simp add: statsProblem_def qlength_def)
  then have a: "assertStats ?t2 = ?t2" by (simp add: assertStats_def)
  from s d have e: "t = (assertStats ?t2)\<lparr>isClosed := True, closing := CloseDone\<rparr>" by simp
  show ?thesis unfolding e a using eq q0 sp by (simp add: statsProblem_def qlength_def)
qed

theorem close_counts_agree_witness:
  "logsThenClose False
     [(calm, Log 7), (calm, Close), (calm, JobSettles 0 Delivered), (calm, DrainResumes)] \<and>
   (\<exists>t. run fileConfig (newTransport fileConfig '''')
          ([(calm, Log 7), (calm, Close), (calm, JobSettles 0 Delivered), (calm, DrainResumes)]
             @ [(calm, DoCloseSettles)]) = Some t \<and>
        logRequests t = 1 \<and> logProcessed t = logRequests t \<and> \<not> statsProblem t \<and>
        StatsProblem \<notin> set (reported t) \<and> closing t = CloseDone)"
proof -
  let ?evs = "[(calm, Log (7::nat)), (calm, Close), (calm, JobSettles 0 Delivered),
               (calm, DrainResumes)]"
  let ?t = "\<lparr>isClosing = True, isClosed = True, logRequests = 1, logProcessed = 1,
       worker = False, posted = [], reported = [],
       jobs = \<lparr>concurrency = 20, queue = [], running = 0, waiters = []\<rparr>,
       startedJobs = [], buffer = [], writing = 0, isOpen = False,
       currentSize = 2, flushRotating = False, isFlushing = False,
       held = None, rotationStarted = False, fileRotator = None,
       flushTimer = False, closing = CloseDone\<rparr> :: nat transport"
  have h: "logsThenClose False ?evs" by (simp add: calm_def)
  have r: "run fileConfig (newTransport fileConfig '''') (?evs @ [(calm, DoCloseSettles)])
             = Some ?t"
    by code_simp
  from close_counts_agree[OF h r] h r show ?thesis by simp
qed

end
